theory Spec2Isabelle
  imports Complex_Main "HOL-Library.Word" "HOL-Library.Log_Nat"
begin

unbundle bit_operations_syntax

section \<open>Values shared by the three modules\<close>

text \<open>
  A \<open>Buffer\<close> or \<open>Uint8Array\<close> is a list of bytes. Field elements (\<open>Fr\<close>), curve
  points and the proving backend belong to external packages; they enter the model as
  type variables and as the fields of environment records, one field per external
  function the source calls. An external call that can throw returns an \<open>option\<close>
  (\<open>None\<close> when it throws).
\<close>

type_synonym byte = "8 word"

datatype error =
    UndefinedOperand      \<comment> \<open>a JavaScript \<open>undefined\<close> reached an operation that needs a value\<close>
  | PrimitiveThrew        \<comment> \<open>an external function threw or its promise rejected\<close>
  | DecryptFailed nat     \<comment> \<open>\<open>Failed to decrypt note i\<close>\<close>
  | InvalidNoteProof nat  \<comment> \<open>\<open>Invalid proof for note i\<close>\<close>
  | MissingSummaryKey     \<comment> \<open>\<open>Summary vkey not yet computed - this should not happen\<close>\<close>
  | InvalidSummaryProof   \<comment> \<open>\<open>Invalid summary proof\<close>\<close>

text \<open>
  \<open>Array.prototype.slice(start, end)\<close> and \<open>Buffer.prototype.slice(start, end)\<close>:
  a negative index counts from the end, both indices are clamped to the length, and an
  end before the start gives the empty sequence.
\<close>

definition js_slice :: "'a list \<Rightarrow> int \<Rightarrow> int \<Rightarrow> 'a list" where
  "js_slice xs start end =
     (let n = int (length xs);
          s = (if start < 0 then max (n + start) 0 else min start n);
          e = (if end < 0 then max (n + end) 0 else min end n)
      in take (nat (e - s)) (drop (nat s) xs))"

text \<open>\<open>slice(start)\<close> with the end left out runs to the end of the sequence.\<close>

definition js_slice_from :: "'a list \<Rightarrow> int \<Rightarrow> 'a list" where
  "js_slice_from xs start = js_slice xs start (int (length xs))"

text \<open>\<open>xs[i]\<close>: \<open>None\<close> stands for \<open>undefined\<close>, the value of a read out of range.\<close>

definition js_index :: "'a list \<Rightarrow> nat \<Rightarrow> 'a option" where
  "js_index xs i = (if i < length xs then Some (xs ! i) else None)"

text \<open>
  \<open>Buffer.alloc(n)\<close> is \<open>n\<close> zero bytes. \<open>src.copy(target, 0, 0, sourceEnd)\<close> overwrites the
  first bytes of \<open>target\<close> with \<open>src[0 .. sourceEnd)\<close>; the source calls it only with
  both start offsets \<open>0\<close>.
\<close>

definition Buffer_alloc :: "nat \<Rightarrow> byte list" where
  "Buffer_alloc n = replicate n 0"

definition Buffer_copy :: "byte list \<Rightarrow> byte list \<Rightarrow> nat \<Rightarrow> byte list" where
  "Buffer_copy src target sourceEnd =
     (let copied = take (length target) (take sourceEnd src)
      in copied @ drop (length copied) target)"

record 'fr field_env =
  Fr_ZERO :: 'fr
  Fr_fromBuffer :: "byte list \<Rightarrow> 'fr option"
  Fr_toBuffer :: "'fr \<Rightarrow> byte list"
  Fr_toString :: "'fr \<Rightarrow> string"
  Fr_toBigInt :: "'fr \<Rightarrow> int option"
  poseidon2Hash :: "'fr list \<Rightarrow> 'fr"
  poseidon2HashWithSeparator :: "'fr list \<Rightarrow> int \<Rightarrow> 'fr"

section \<open>Merkle accumulator (\<open>src/imt.ts\<close>)\<close>

subsection \<open>\<open>hashCiphertextToLeaf\<close>\<close>

definition MESSAGE_CIPHERTEXT_LEN :: nat where
  "MESSAGE_CIPHERTEXT_LEN = 17"

text \<open>
  The tag-stripped ciphertext is copied into a zeroed buffer of \<open>17 * 32\<close> bytes, which is
  cut into 17 chunks of 32 bytes. Both \<open>hashCiphertextToLeaf\<close> and
  \<open>prepareNoteCircuitInputs\<close> contain this block.
\<close>

definition paddedCiphertextBuffer :: "byte list \<Rightarrow> byte list" where
  "paddedCiphertextBuffer ciphertext =
     (let ciphertextWithoutTag = js_slice_from ciphertext 32;
          paddedBuffer = Buffer_alloc (MESSAGE_CIPHERTEXT_LEN * 32)
      in Buffer_copy ciphertextWithoutTag paddedBuffer
           (min (length ciphertextWithoutTag) (length paddedBuffer)))"

definition ciphertextChunks :: "byte list \<Rightarrow> byte list list" where
  "ciphertextChunks ciphertext =
     map (\<lambda>i. js_slice (paddedCiphertextBuffer ciphertext) (int i * 32) ((int i + 1) * 32))
       [0 ..< MESSAGE_CIPHERTEXT_LEN]"

text \<open>The first chunk whose conversion throws aborts the loop.\<close>

fun fromBuffer_all :: "'fr field_env \<Rightarrow> byte list list \<Rightarrow> error + 'fr list" where
  "fromBuffer_all env [] = Inr []"
| "fromBuffer_all env (chunk # chunks) =
     (case Fr_fromBuffer env chunk of
        None \<Rightarrow> Inl PrimitiveThrew
      | Some f \<Rightarrow>
          (case fromBuffer_all env chunks of
             Inl e \<Rightarrow> Inl e
           | Inr fs \<Rightarrow> Inr (f # fs)))"

definition hashCiphertextToLeaf :: "'fr field_env \<Rightarrow> byte list \<Rightarrow> error + 'fr" where
  "hashCiphertextToLeaf env ciphertext =
     (case fromBuffer_all env (ciphertextChunks ciphertext) of
        Inl e \<Rightarrow> Inl e
      | Inr fs \<Rightarrow> Inr (poseidon2HashWithSeparator env fs 0))"

subsection \<open>\<open>buildIMT\<close>\<close>

text \<open>
  \<open>Math.pow(2, Math.ceil(Math.log2(n)))\<close>, read over the reals: \<open>ceillog2 n\<close> of
  \<open>HOL-Library.Log_Nat\<close> is \<open>nat \<lceil>log 2 (real n)\<rceil>\<close> for \<open>n > 0\<close>. The rounding of
  the double-precision \<open>Math.log2\<close> is not modelled.
\<close>

definition nextPow2 :: "nat \<Rightarrow> nat" where
  "nextPow2 n = 2 ^ ceillog2 n"

text \<open>\<open>while (paddedLeaves.length < nextPow2) paddedLeaves.push(Fr.ZERO)\<close>\<close>

function pad_loop :: "'fr \<Rightarrow> nat \<Rightarrow> 'fr list \<Rightarrow> 'fr list" where
  "pad_loop z n paddedLeaves =
     (if length paddedLeaves < n then pad_loop z n (paddedLeaves @ [z]) else paddedLeaves)"
  by pat_completeness auto
termination
  by (relation "measure (\<lambda>(z, n, paddedLeaves). n - length paddedLeaves)") auto

declare pad_loop.simps [simp del]

text \<open>
  The inner \<open>for\<close> loop of one level. \<open>currentLevel[i + 1]\<close> is read without a bound
  check; on a level of odd length it is \<open>undefined\<close>, which the hash cannot take.
\<close>

function hash_level :: "'fr field_env \<Rightarrow> 'fr list \<Rightarrow> nat \<Rightarrow> 'fr list \<Rightarrow> error + 'fr list" where
  "hash_level env currentLevel i nextLevel =
     (if i < length currentLevel then
        (case js_index currentLevel (i + 1) of
           None \<Rightarrow> Inl UndefinedOperand
         | Some right \<Rightarrow>
             hash_level env currentLevel (i + 2)
               (nextLevel @ [poseidon2Hash env [currentLevel ! i, right]]))
      else Inr nextLevel)"
  by pat_completeness auto
termination
  by (relation "measure (\<lambda>(env, currentLevel, i, nextLevel). length currentLevel - i)") auto

declare hash_level.simps [simp del]

lemma hash_level_length:
  "hash_level env cur i acc = Inr nxt \<Longrightarrow> i \<le> length cur \<Longrightarrow>
     length nxt = length acc + (length cur - i) div 2"
proof (induction env cur i acc rule: hash_level.induct)
  case (1 env cur i acc)
  show ?case
  proof (cases "i < length cur")
    case False
    with "1.prems" show ?thesis by (simp add: hash_level.simps [of env cur i acc])
  next
    case True
    from True "1.prems" obtain r where r: "js_index cur (i + 1) = Some r"
      by (auto simp: hash_level.simps [of env cur i acc] split: option.splits)
    then have lt: "i + 1 < length cur"
      by (auto simp: js_index_def split: if_splits)
    from "1.prems" True r
    have "hash_level env cur (i + 2) (acc @ [poseidon2Hash env [cur ! i, r]]) = Inr nxt"
      by (simp add: hash_level.simps [of env cur i acc])
    from "1.IH" [OF True r this] lt
    have "length nxt = length (acc @ [poseidon2Hash env [cur ! i, r]]) + (length cur - (i + 2)) div 2"
      by simp
    moreover from lt have "(length cur - i) div 2 = Suc ((length cur - (i + 2)) div 2)"
      by presburger
    ultimately show ?thesis by simp
  qed
qed

text \<open>The outer \<open>while (currentLevel.length > 1)\<close> loop.\<close>

function build_levels :: "'fr field_env \<Rightarrow> 'fr list \<Rightarrow> error + 'fr list" where
  "build_levels env currentLevel =
     (if length currentLevel > 1 then
        (case hash_level env currentLevel 0 [] of
           Inl e \<Rightarrow> Inl e
         | Inr nextLevel \<Rightarrow> build_levels env nextLevel)
      else Inr currentLevel)"
  by pat_completeness auto
termination
proof (relation "measure (\<lambda>(env, currentLevel). length currentLevel)")
  show "wf (measure (\<lambda>(env :: 'fr field_env, currentLevel :: 'fr list). length currentLevel))"
    by simp
next
  fix env :: "'fr field_env" and currentLevel x2 :: "'fr list"
  assume "1 < length currentLevel" and "hash_level env currentLevel 0 [] = Inr x2"
  then show "((env, x2), (env, currentLevel)) \<in> measure (\<lambda>(env, currentLevel). length currentLevel)"
    using hash_level_length [of env currentLevel 0 "[]" x2] by simp
qed

declare build_levels.simps [simp del]

definition buildIMT :: "'fr field_env \<Rightarrow> 'fr list \<Rightarrow> error + 'fr" where
  "buildIMT env leaves =
     (if length leaves = 0 then Inr (Fr_ZERO env)
      else
        (case build_levels env (pad_loop (Fr_ZERO env) (nextPow2 (length leaves)) leaves) of
           Inl e \<Rightarrow> Inl e
         | Inr currentLevel \<Rightarrow>
             (case js_index currentLevel 0 of
                None \<Rightarrow> Inl UndefinedOperand
              | Some r \<Rightarrow> Inr r)))"

text \<open>
  \<open>Promise.all\<close> over the leaf hashes rejects as soon as one of them rejects.
\<close>

fun all_leaves :: "'fr field_env \<Rightarrow> byte list list \<Rightarrow> error + 'fr list" where
  "all_leaves env [] = Inr []"
| "all_leaves env (c # cs) =
     (case hashCiphertextToLeaf env c of
        Inl e \<Rightarrow> Inl e
      | Inr leaf \<Rightarrow>
          (case all_leaves env cs of
             Inl e \<Rightarrow> Inl e
           | Inr leaves \<Rightarrow> Inr (leaf # leaves)))"

definition buildIMTFromCiphertexts :: "'fr field_env \<Rightarrow> byte list list \<Rightarrow> error + 'fr" where
  "buildIMTFromCiphertexts env ciphertexts =
     (case all_leaves env ciphertexts of
        Inl e \<Rightarrow> Inl e
      | Inr leaves \<Rightarrow> buildIMT env leaves)"

subsection \<open>\<open>computeZeroHashes\<close> and \<open>getZeroHashes\<close>\<close>

text \<open>
  The loop \<open>for (let i = 1; i <= maxDepth; i++)\<close> of \<open>computeZeroHashes\<close>. Next to the
  table it returns how many times \<open>poseidon2Hash\<close> was awaited, so that the work a call
  does can be stated; the counter has no influence on the table.
\<close>

function zeroHashes_loop ::
  "'fr field_env \<Rightarrow> int \<Rightarrow> int \<Rightarrow> 'fr list \<Rightarrow> nat \<Rightarrow> error + ('fr list \<times> nat)" where
  "zeroHashes_loop env maxDepth i zeroHashes calls =
     (if i \<le> maxDepth then
        (case js_index zeroHashes (nat (i - 1)) of
           None \<Rightarrow> Inl UndefinedOperand
         | Some prev \<Rightarrow>
             zeroHashes_loop env maxDepth (i + 1)
               (zeroHashes @ [poseidon2Hash env [prev, prev]]) (Suc calls))
      else Inr (zeroHashes, calls))"
  by pat_completeness auto
termination
  by (relation "measure (\<lambda>(env, maxDepth, i, zeroHashes, calls). nat (maxDepth + 1 - i))") auto

declare zeroHashes_loop.simps [simp del]

definition computeZeroHashes :: "'fr field_env \<Rightarrow> int \<Rightarrow> error + ('fr list \<times> nat)" where
  "computeZeroHashes env maxDepth = zeroHashes_loop env maxDepth 1 [Fr_ZERO env] 0"

text \<open>
  The two module-level variables, and the running total of \<open>poseidon2Hash\<close> calls made
  on behalf of \<open>getZeroHashes\<close>.
\<close>

record 'fr zero_cache =
  cachedZeroHashes :: "'fr list option"
  cachedMaxDepth :: int
  poseidonCalls :: nat

definition initial_zero_cache :: "'fr zero_cache" where
  "initial_zero_cache = \<lparr>cachedZeroHashes = None, cachedMaxDepth = 0, poseidonCalls = 0\<rparr>"

definition getZeroHashes ::
  "'fr field_env \<Rightarrow> 'fr zero_cache \<Rightarrow> int \<Rightarrow> error + ('fr list \<times> 'fr zero_cache)" where
  "getZeroHashes env st maxDepth =
     (if cachedZeroHashes st \<noteq> None \<and> cachedMaxDepth st \<ge> maxDepth then
        Inr (js_slice (the (cachedZeroHashes st)) 0 (maxDepth + 1), st)
      else
        (case computeZeroHashes env maxDepth of
           Inl e \<Rightarrow> Inl e
         | Inr (table, calls) \<Rightarrow>
             Inr (table,
                  st\<lparr>cachedZeroHashes := Some table,
                     cachedMaxDepth := maxDepth,
                     poseidonCalls := poseidonCalls st + calls\<rparr>)))"

text \<open>
  The cache states a program can be in: the initial one, and any state a completed call
  of \<open>getZeroHashes\<close> leaves behind. Nothing else writes the two variables.
\<close>

inductive zero_cache_reachable :: "'fr field_env \<Rightarrow> 'fr zero_cache \<Rightarrow> bool"
  for env :: "'fr field_env" where
  reach_initial: "zero_cache_reachable env initial_zero_cache"
| reach_call:
    "zero_cache_reachable env st \<Longrightarrow> getZeroHashes env st maxDepth = Inr (table, st') \<Longrightarrow>
       zero_cache_reachable env st'"


subsection \<open>The specification's reading of \<open>buildRoot\<close> and of the zero-hash table\<close>

text \<open>
  Written from the words of the specification, to be compared with the functions
  above: pad the leaf list on the right with the additive identity up to the next power
  of two, then hash adjacent pairs until one element remains; the empty list gives the
  additive identity.
\<close>

definition spec_pad :: "'fr \<Rightarrow> 'fr list \<Rightarrow> 'fr list" where
  "spec_pad z leaves = leaves @ replicate (2 ^ ceillog2 (length leaves) - length leaves) z"

fun spec_pairs :: "('fr list \<Rightarrow> 'fr) \<Rightarrow> 'fr list \<Rightarrow> 'fr list" where
  "spec_pairs h (l # r # rest) = h [l, r] # spec_pairs h rest"
| "spec_pairs h rest = rest"

lemma spec_pairs_length: "length (spec_pairs h xs) = (length xs + 1) div 2"
  by (induction h xs rule: spec_pairs.induct) auto

function spec_reduce :: "('fr list \<Rightarrow> 'fr) \<Rightarrow> 'fr list \<Rightarrow> 'fr list" where
  "spec_reduce h xs = (if length xs > 1 then spec_reduce h (spec_pairs h xs) else xs)"
  by pat_completeness auto
termination
  by (relation "measure (\<lambda>(h, xs). length xs)") (auto simp: spec_pairs_length)

declare spec_reduce.simps [simp del]

definition spec_buildRoot :: "'fr field_env \<Rightarrow> 'fr list \<Rightarrow> 'fr" where
  "spec_buildRoot env leaves =
     (case leaves of
        [] \<Rightarrow> Fr_ZERO env
      | _ # _ \<Rightarrow> hd (spec_reduce (poseidon2Hash env) (spec_pad (Fr_ZERO env) leaves)))"

text \<open>
  The zero-hash table of the specification: index 0 is the additive identity, index
  \<open>n\<close> the hash of two copies of index \<open>n - 1\<close>.
\<close>

fun spec_zeroHash :: "'fr field_env \<Rightarrow> nat \<Rightarrow> 'fr" where
  "spec_zeroHash env 0 = Fr_ZERO env"
| "spec_zeroHash env (Suc n) = poseidon2Hash env [spec_zeroHash env n, spec_zeroHash env n]"

definition spec_zeroTable :: "'fr field_env \<Rightarrow> nat \<Rightarrow> 'fr list" where
  "spec_zeroTable env n = map (spec_zeroHash env) [0 ..< Suc n]"

text \<open>A cache that is set holds the specification's table for its recorded depth.\<close>

definition zero_cache_inv :: "'fr field_env \<Rightarrow> 'fr zero_cache \<Rightarrow> bool" where
  "zero_cache_inv env st =
     (case cachedZeroHashes st of
        None \<Rightarrow> True
      | Some t \<Rightarrow> t = spec_zeroTable env (nat (cachedMaxDepth st)))"


section \<open>Note decryptor (\<open>src/decrypt.ts\<close>)\<close>

text \<open>
  The curve, cipher and key-derivation collaborators. \<open>SYMMETRIC_KEY\<close> and
  \<open>SYMMETRIC_KEY_2\<close> are the two \<open>GeneratorIndex\<close> constants of \<open>@aztec/constants\<close>,
  which the repository imports.
\<close>

record ('fr, 'pt, 'sc, 'ca, 'pre) crypto_env =
  Point_fromXAndSign :: "'fr \<Rightarrow> bool \<Rightarrow> 'pt option"
  Point_x :: "'pt \<Rightarrow> 'fr"
  Point_y :: "'pt \<Rightarrow> 'fr"
  getPreaddress :: "'ca \<Rightarrow> 'pre option"
  computeAddressSecret :: "'pre \<Rightarrow> 'sc \<Rightarrow> 'sc option"
  deriveEcdhSharedSecret :: "'sc \<Rightarrow> 'pt \<Rightarrow> 'pt option"
  decryptBufferCBC :: "byte list \<Rightarrow> byte list \<Rightarrow> byte list \<Rightarrow> byte list option"
  Scalar_toString :: "'sc \<Rightarrow> string"
  SYMMETRIC_KEY :: int
  SYMMETRIC_KEY_2 :: int

subsection \<open>\<open>deriveAesKeys\<close>\<close>

record aes_keys =
  bodyKey :: "byte list"
  bodyIv :: "byte list"
  headerKey :: "byte list"
  headerIv :: "byte list"

definition deriveAesKeys ::
  "'fr field_env \<Rightarrow> ('fr, 'pt, 'sc, 'ca, 'pre) crypto_env \<Rightarrow> 'pt \<Rightarrow> aes_keys" where
  "deriveAesKeys fenv cenv sharedSecret =
     (let xy = [Point_x cenv sharedSecret, Point_y cenv sharedSecret];
          rand1 = poseidon2HashWithSeparator fenv xy (SYMMETRIC_KEY cenv);
          rand2 = poseidon2HashWithSeparator fenv xy (SYMMETRIC_KEY_2 cenv);
          rand1Bytes = Fr_toBuffer fenv rand1;
          rand2Bytes = Fr_toBuffer fenv rand2;
          rand3 = poseidon2HashWithSeparator fenv xy (push_bit 8 1 + SYMMETRIC_KEY cenv);
          rand4 = poseidon2HashWithSeparator fenv xy (push_bit 8 1 + SYMMETRIC_KEY_2 cenv);
          rand3Bytes = Fr_toBuffer fenv rand3;
          rand4Bytes = Fr_toBuffer fenv rand4
      in \<lparr>bodyKey = rev (js_slice rand1Bytes 16 32),
          bodyIv = rev (js_slice rand2Bytes 16 32),
          headerKey = rev (js_slice rand3Bytes 16 32),
          headerIv = rev (js_slice rand4Bytes 16 32)\<rparr>)"

subsection \<open>\<open>unpackFieldsToBytes\<close> and \<open>reconstructPublicKey\<close>\<close>

definition unpackFieldsToBytes :: "byte list \<Rightarrow> byte list" where
  "unpackFieldsToBytes packedBuffer =
     (let numFields = length packedBuffer div 32
      in concat (map (\<lambda>i. let fieldBuffer = js_slice packedBuffer (int i * 32) ((int i + 1) * 32)
                             in js_slice fieldBuffer 1 32)
                   [0 ..< numFields]))"

text \<open>The \<open>try\<close>/\<open>catch\<close> of \<open>reconstructPublicKey\<close> turns a throw into \<open>null\<close>.\<close>

definition reconstructPublicKey ::
  "('fr, 'pt, 'sc, 'ca, 'pre) crypto_env \<Rightarrow> 'fr \<Rightarrow> bool \<Rightarrow> 'pt option" where
  "reconstructPublicKey cenv x signBit =
     (case Point_fromXAndSign cenv x signBit of
        Some point \<Rightarrow> Some point
      | None \<Rightarrow> None)"

subsection \<open>\<open>decryptNote\<close>\<close>

text \<open>
  \<open>(headerPlaintext[0] << 8) | headerPlaintext[1]\<close>: a byte read out of range is
  \<open>undefined\<close>, which the bit operators take as \<open>0\<close>. The operands are below \<open>2^16\<close>,
  so the 32-bit wrap of the JavaScript operators does not occur.
\<close>

definition byte_operand :: "byte list \<Rightarrow> nat \<Rightarrow> int" where
  "byte_operand buf i = (case js_index buf i of None \<Rightarrow> 0 | Some b \<Rightarrow> uint b)"

definition headerCiphertextLength :: "byte list \<Rightarrow> int" where
  "headerCiphertextLength headerPlaintext =
     (push_bit 8 (byte_operand headerPlaintext 0)) OR (byte_operand headerPlaintext 1)"

text \<open>
  Step 6 up to the cipher call: the bytes of \<open>restBytes\<close> handed to the body decryption.
\<close>

definition bodyCiphertextOf :: "byte list \<Rightarrow> int \<Rightarrow> byte list" where
  "bodyCiphertextOf restBytes ciphertextLength =
     (let availableBytes = int (length restBytes) - 17;
          actualLength = min ciphertextLength availableBytes
      in js_slice restBytes 17 (17 + actualLength))"

text \<open>
  Step 7, the loop \<open>for (let i = 0; i < bodyPlaintext.length; i += 32)\<close>: a chunk is
  converted only when all of its 32 bytes lie inside the body.
\<close>

function bodyToFields :: "'fr field_env \<Rightarrow> byte list \<Rightarrow> nat \<Rightarrow> 'fr list \<Rightarrow> error + 'fr list" where
  "bodyToFields fenv bodyPlaintext i fs =
     (if i < length bodyPlaintext then
        (if i + 32 \<le> length bodyPlaintext then
           (case Fr_fromBuffer fenv (js_slice bodyPlaintext (int i) (int i + 32)) of
              None \<Rightarrow> Inl PrimitiveThrew
            | Some f \<Rightarrow> bodyToFields fenv bodyPlaintext (i + 32) (fs @ [f]))
         else bodyToFields fenv bodyPlaintext (i + 32) fs)
      else Inr fs)"
  by pat_completeness auto
termination
  by (relation "measure (\<lambda>(fenv, bodyPlaintext, i, fs). length bodyPlaintext - i)") auto

declare bodyToFields.simps [simp del]

text \<open>
  The body of the \<open>try\<close> block. \<open>Inl\<close> is an exception raised inside it, \<open>Inr None\<close> the
  explicit \<open>return null\<close>, \<open>Inr (Some fields)\<close> the normal return.
\<close>

definition decryptNote_try ::
  "'fr field_env \<Rightarrow> ('fr, 'pt, 'sc, 'ca, 'pre) crypto_env \<Rightarrow> byte list \<Rightarrow> 'ca \<Rightarrow> 'sc \<Rightarrow>
     error + 'fr list option" where
  "decryptNote_try fenv cenv encryptedLog recipientCompleteAddress ivskM =
     (let ciphertextWithoutTag = js_slice_from encryptedLog 32 in
      case Fr_fromBuffer fenv (js_slice ciphertextWithoutTag 0 32) of
        None \<Rightarrow> Inl PrimitiveThrew
      | Some ephPkX \<Rightarrow>
     (let restFieldsBuffer = js_slice_from ciphertextWithoutTag 32;
          restBytes = unpackFieldsToBytes restFieldsBuffer;
          ephPkSign = (js_index restBytes 0 \<noteq> Some 0) in
      case reconstructPublicKey cenv ephPkX ephPkSign of
        None \<Rightarrow> Inr None
      | Some ephPk \<Rightarrow>
     (case getPreaddress cenv recipientCompleteAddress of
        None \<Rightarrow> Inl PrimitiveThrew
      | Some preaddress \<Rightarrow>
     (case computeAddressSecret cenv preaddress ivskM of
        None \<Rightarrow> Inl PrimitiveThrew
      | Some addressSecret \<Rightarrow>
     (case deriveEcdhSharedSecret cenv addressSecret ephPk of
        None \<Rightarrow> Inl PrimitiveThrew
      | Some sharedSecret \<Rightarrow>
     (let keys = deriveAesKeys fenv cenv sharedSecret;
          headerCiphertext = js_slice restBytes 1 17 in
      case decryptBufferCBC cenv headerCiphertext (headerIv keys) (headerKey keys) of
        None \<Rightarrow> Inl PrimitiveThrew
      | Some headerPlaintext \<Rightarrow>
     (let ciphertextLength = headerCiphertextLength headerPlaintext;
          bodyCiphertext = bodyCiphertextOf restBytes ciphertextLength in
      case decryptBufferCBC cenv bodyCiphertext (bodyIv keys) (bodyKey keys) of
        None \<Rightarrow> Inl PrimitiveThrew
      | Some bodyPlaintext \<Rightarrow>
     (case bodyToFields fenv bodyPlaintext 0 [] of
        Inl e \<Rightarrow> Inl e
      | Inr fs \<Rightarrow> Inr (Some fs)))))))))"

text \<open>The \<open>catch\<close> clause logs the exception and returns \<open>null\<close>.\<close>

definition decryptNote ::
  "'fr field_env \<Rightarrow> ('fr, 'pt, 'sc, 'ca, 'pre) crypto_env \<Rightarrow> byte list \<Rightarrow> 'ca \<Rightarrow> 'sc \<Rightarrow>
     error + 'fr list option" where
  "decryptNote fenv cenv encryptedLog recipientCompleteAddress ivskM =
     (case decryptNote_try fenv cenv encryptedLog recipientCompleteAddress ivskM of
        Inl e \<Rightarrow> Inr None
      | Inr result \<Rightarrow> Inr result)"

text \<open>A name for the \<open>restBytes\<close> of \<open>decryptNote\<close> as a function of the encrypted log.\<close>

definition restBytesOf :: "byte list \<Rightarrow> byte list" where
  "restBytesOf encryptedLog =
     unpackFieldsToBytes (js_slice_from (js_slice_from encryptedLog 32) 32)"

subsection \<open>\<open>parseNotePlaintext\<close>\<close>

record ('fr, 'addr) parsed_note =
  msgTypeId :: int
  noteTypeId :: int
  owner :: 'addr
  storageSlot :: 'fr
  randomness :: 'fr
  packedNote :: "'fr list"

text \<open>
  \<open>AztecAddress.fromField\<close> is the second argument. \<open>plaintext[0].toBigInt()\<close> throws for
  a field object that holds a value not below the field modulus (\<open>Fr.fromBuffer\<close> accepts
  any 32 bytes and the check is made on conversion); the function has no handler, so
  the exception leaves it: \<open>Inl\<close>. \<open>Inr None\<close> is the return of \<open>null\<close>. On \<open>bigint\<close>,
  \<open>>> 64n\<close> is \<open>drop_bit 64\<close> and \<open>& ((1n << 64n) - 1n)\<close> is \<open>AND\<close> with
  \<open>push_bit 64 1 - 1\<close>.
\<close>

definition parseNotePlaintext ::
  "'fr field_env \<Rightarrow> ('fr \<Rightarrow> 'addr) \<Rightarrow> 'fr list \<Rightarrow>
     error + ('fr, 'addr) parsed_note option" where
  "parseNotePlaintext fenv AztecAddress_fromField plaintext =
     (if length plaintext < 4 then Inr None
      else
        (case Fr_toBigInt fenv (plaintext ! 0) of
           None \<Rightarrow> Inl PrimitiveThrew
         | Some expandedMetadata \<Rightarrow>
             Inr (Some \<lparr>msgTypeId = drop_bit 64 expandedMetadata,
                         noteTypeId = expandedMetadata AND (push_bit 64 1 - 1),
                         owner = AztecAddress_fromField (plaintext ! 1),
                         storageSlot = plaintext ! 2,
                         randomness = plaintext ! 3,
                         packedNote = js_slice_from plaintext 4\<rparr>)))"

section \<open>Proof tree (\<open>src/proof-tree.ts\<close>)\<close>

subsection \<open>Data\<close>

text \<open>\<open>ProofData\<close> of the backend, and the \<open>ProofArtifact\<close> passed between levels.\<close>

record proof_data =
  pd_proof :: "byte list"
  pd_publicInputs :: "string list"

record ProofArtifact =
  pa_proof :: "byte list"
  pa_proofAsFields :: "string list"
  pa_publicInputs :: "string list"
  pa_value :: int

text \<open>The input objects of the two circuits; a Noir option is the pair \<open>(_is_some, _value)\<close>.\<close>

record note_inputs =
  plaintext_storage :: "string list"
  plaintext_len :: string
  ciphertext_fields :: "string list"
  ivsk_app :: string

record summary_inputs =
  verification_key :: "string list option"
  vkey_hash :: "string option"
  proof_left :: "string list"
  proof_right :: "bool \<times> string list"
  public_inputs_left :: "string list"
  public_inputs_right :: "bool \<times> string list"
  zero_leaf_hint :: "bool \<times> string"
  summary_vkey_hash :: "string option"

text \<open>
  The proving backend for the two circuits of the configuration, and \<open>BigInt(string)\<close>.
  \<open>execute\<close> returns the witness and the three return values.
\<close>

record 'w backend_env =
  noteNoir_init :: bool
  summaryNoir_init :: bool
  noteNoir_execute :: "note_inputs \<Rightarrow> ('w \<times> string \<times> string \<times> string) option"
  noteBackend_generateProof :: "'w \<Rightarrow> proof_data option"
  noteBackend_verifyProof :: "proof_data \<Rightarrow> bool option"
  noteBackend_generateRecursiveProofArtifacts :: "byte list \<Rightarrow> nat \<Rightarrow> (string list \<times> string) option"
  summaryNoir_execute :: "summary_inputs \<Rightarrow> ('w \<times> string \<times> string \<times> string) option"
  summaryBackend_generateProof :: "'w \<Rightarrow> proof_data option"
  summaryBackend_verifyProof :: "proof_data \<Rightarrow> bool option"
  summaryBackend_generateRecursiveProofArtifacts :: "byte list \<Rightarrow> nat \<Rightarrow> (string list \<times> string) option"
  BigInt_ofString :: "string \<Rightarrow> int option"

record ('ca, 'sc) ProofTreeConfig =
  cfg_notes :: "byte list list"
  recipientCompleteAddress :: 'ca
  ivskM :: 'sc

text \<open>
  The private fields of a \<open>ProofTree\<close> instance. The four handles are kept as flags
  (set or \<open>null\<close>); a method call on a \<open>null\<close> handle is a \<open>TypeError\<close>.
\<close>

record ('fr, 'sc) tree_state =
  noteNoir :: bool
  noteBackend :: bool
  summaryNoir :: bool
  summaryBackend :: bool
  addressSecret :: "'sc option"
  zeroHashes :: "'fr list option"
  leafVkAsFields :: "string list option"
  leafVkHash :: "string option"
  summaryVkAsFields :: "string list option"
  summaryVkHash :: "string option"


text \<open>
  A method that throws leaves the instance in the state reached so far, so a failure
  carries the state with the error.
\<close>

type_synonym ('fr, 'sc, 'a) tree_result =
  "(error \<times> ('fr, 'sc) tree_state) + ('a \<times> ('fr, 'sc) tree_state)"

text \<open>\<open>!s\<close> for a \<open>string | null\<close>: \<open>null\<close> and the empty string are falsy.\<close>

definition js_truthy :: "string option \<Rightarrow> bool" where
  "js_truthy s = (case s of None \<Rightarrow> False | Some v \<Rightarrow> v \<noteq> [])"

subsection \<open>\<open>proofBytesToFields\<close>\<close>

definition hex_digit :: "nat \<Rightarrow> char" where
  "hex_digit n = ''0123456789abcdef'' ! n"

definition hex_of_bytes :: "byte list \<Rightarrow> string" where
  "hex_of_bytes bs = concat (map (\<lambda>b. [hex_digit (unat b div 16), hex_digit (unat b mod 16)]) bs)"

function proofBytes_loop :: "byte list \<Rightarrow> nat \<Rightarrow> string list \<Rightarrow> string list" where
  "proofBytes_loop proofBytes i fs =
     (if i < length proofBytes then
        (let chunk = js_slice proofBytes (int i) (int i + 32);
             hex = ''0x'' @ hex_of_bytes chunk
         in proofBytes_loop proofBytes (i + 32) (fs @ [hex]))
      else fs)"
  by pat_completeness auto
termination
  by (relation "measure (\<lambda>(proofBytes, i, fs). length proofBytes - i)") auto

declare proofBytes_loop.simps [simp del]

definition proofBytesToFields :: "byte list \<Rightarrow> string list" where
  "proofBytesToFields proofBytes = proofBytes_loop proofBytes 0 []"

subsection \<open>\<open>prepareNoteCircuitInputs\<close>\<close>

text \<open>\<open>Number.prototype.toString()\<close> on a length: its decimal digits.\<close>

function nat_toString :: "nat \<Rightarrow> string" where
  "nat_toString n =
     (if n < 10 then [hex_digit n] else nat_toString (n div 10) @ [hex_digit (n mod 10)])"
  by pat_completeness auto
termination
  by (relation "measure id") auto

declare nat_toString.simps [simp del]

definition prepareNoteCircuitInputs ::
  "'fr field_env \<Rightarrow> ('fr, 'pt, 'sc, 'ca, 'pre) crypto_env \<Rightarrow> ('fr, 'sc) tree_state \<Rightarrow>
     'fr list \<Rightarrow> byte list \<Rightarrow> error + note_inputs" where
  "prepareNoteCircuitInputs fenv cenv st plaintext encryptedLogBuffer =
     (let plaintextStorage = map (Fr_toString fenv) plaintext;
          plaintextLen = length plaintextStorage;
          paddedStorage = pad_loop ''0'' 14 plaintextStorage
      in case fromBuffer_all fenv (ciphertextChunks encryptedLogBuffer) of
           Inl e \<Rightarrow> Inl e
         | Inr ciphertextFrs \<Rightarrow>
             (case addressSecret st of
                None \<Rightarrow> Inl UndefinedOperand
              | Some secret \<Rightarrow>
                  Inr \<lparr>plaintext_storage = paddedStorage,
                       plaintext_len = nat_toString plaintextLen,
                       ciphertext_fields = map (Fr_toString fenv) ciphertextFrs,
                       ivsk_app = Scalar_toString cenv secret\<rparr>))"

subsection \<open>\<open>proveLeaves\<close>\<close>

text \<open>
  The loop over \<open>this.config.notes\<close>; \<open>i\<close> is the index of the first remaining note
  and \<open>proofs\<close> the artifacts pushed so far.
\<close>

fun proveLeaves_loop ::
  "'fr field_env \<Rightarrow> ('fr, 'pt, 'sc, 'ca, 'pre) crypto_env \<Rightarrow> 'w backend_env \<Rightarrow>
     ('ca, 'sc) ProofTreeConfig \<Rightarrow> byte list list \<Rightarrow> nat \<Rightarrow> ProofArtifact list \<Rightarrow>
     ('fr, 'sc) tree_state \<Rightarrow> ('fr, 'sc, ProofArtifact list) tree_result" where
  "proveLeaves_loop fenv cenv benv cfg [] i proofs st = Inr (proofs, st)"
| "proveLeaves_loop fenv cenv benv cfg (noteCiphertext # rest) i proofs st =
     (case decryptNote fenv cenv noteCiphertext (recipientCompleteAddress cfg) (ivskM cfg) of
        Inl e \<Rightarrow> Inl (e, st)
      | Inr None \<Rightarrow> Inl (DecryptFailed i, st)
      | Inr (Some plaintext) \<Rightarrow>
     (case prepareNoteCircuitInputs fenv cenv st plaintext noteCiphertext of
        Inl e \<Rightarrow> Inl (e, st)
      | Inr circuitInputs \<Rightarrow>
     (if \<not> noteNoir st then Inl (UndefinedOperand, st) else
      case noteNoir_execute benv circuitInputs of
        None \<Rightarrow> Inl (PrimitiveThrew, st)
      | Some (witness, declaredValue, treeLeaf, vkeyHash) \<Rightarrow>
     (if \<not> noteBackend st then Inl (UndefinedOperand, st) else
      case noteBackend_generateProof benv witness of
        None \<Rightarrow> Inl (PrimitiveThrew, st)
      | Some proof \<Rightarrow>
     (case noteBackend_verifyProof benv proof of
        None \<Rightarrow> Inl (PrimitiveThrew, st)
      | Some isValid \<Rightarrow>
     (if \<not> isValid then Inl (InvalidNoteProof i, st) else
      case (if leafVkAsFields st = None then
              (case noteBackend_generateRecursiveProofArtifacts benv (pd_proof proof) 3 of
                 None \<Rightarrow> Inl (PrimitiveThrew, st)
               | Some (vkAsFields, vkHash) \<Rightarrow>
                   Inr (st\<lparr>leafVkAsFields := Some vkAsFields, leafVkHash := Some vkHash\<rparr>))
            else Inr st) of
        Inl es \<Rightarrow> Inl es
      | Inr st' \<Rightarrow>
     (let proofAsFields = proofBytesToFields (pd_proof proof) in
      case BigInt_ofString benv declaredValue of
        None \<Rightarrow> Inl (PrimitiveThrew, st')
      | Some valueNum \<Rightarrow>
          proveLeaves_loop fenv cenv benv cfg rest (i + 1)
            (proofs @ [\<lparr>pa_proof = pd_proof proof,
                        pa_proofAsFields = proofAsFields,
                        pa_publicInputs = [declaredValue, treeLeaf, vkeyHash],
                        pa_value = valueNum\<rparr>]) st')))))))"

definition proveLeaves ::
  "'fr field_env \<Rightarrow> ('fr, 'pt, 'sc, 'ca, 'pre) crypto_env \<Rightarrow> 'w backend_env \<Rightarrow>
     ('ca, 'sc) ProofTreeConfig \<Rightarrow> ('fr, 'sc) tree_state \<Rightarrow>
     ('fr, 'sc, ProofArtifact list) tree_result" where
  "proveLeaves fenv cenv benv cfg st = proveLeaves_loop fenv cenv benv cfg (cfg_notes cfg) 0 [] st"

subsection \<open>\<open>precomputeSummaryVkHash\<close> and \<open>combineProofs\<close>\<close>

definition precomputeSummaryVkHash ::
  "'fr field_env \<Rightarrow> 'w backend_env \<Rightarrow> ('fr, 'sc) tree_state \<Rightarrow> ProofArtifact \<Rightarrow>
     string list option \<Rightarrow> string option \<Rightarrow> ('fr, 'sc, unit) tree_result" where
  "precomputeSummaryVkHash fenv benv st sampleProof vkAsFields vkHash =
     (let emptyProof = replicate (length (pa_proofAsFields sampleProof)) ''0x0'';
          emptyPublicInputs = [''0x0'', ''0x0'', ''0x0''] in
      case (case zeroHashes st of None \<Rightarrow> None | Some zh \<Rightarrow> js_index zh 0) of
        None \<Rightarrow> Inl (UndefinedOperand, st)
      | Some zero0 \<Rightarrow>
     (let throwawayInputs =
            \<lparr>verification_key = vkAsFields,
             vkey_hash = vkHash,
             proof_left = pa_proofAsFields sampleProof,
             proof_right = (False, emptyProof),
             public_inputs_left = pa_publicInputs sampleProof,
             public_inputs_right = (False, emptyPublicInputs),
             zero_leaf_hint = (True, Fr_toString fenv zero0),
             summary_vkey_hash = Some ''0x0''\<rparr> in
      if \<not> summaryNoir st then Inl (UndefinedOperand, st) else
      case summaryNoir_execute benv throwawayInputs of
        None \<Rightarrow> Inl (PrimitiveThrew, st)
      | Some (witness, returnValue) \<Rightarrow>
     (if \<not> summaryBackend st then Inl (UndefinedOperand, st) else
      case summaryBackend_generateProof benv witness of
        None \<Rightarrow> Inl (PrimitiveThrew, st)
      | Some proof \<Rightarrow>
     (case summaryBackend_generateRecursiveProofArtifacts benv (pd_proof proof) 3 of
        None \<Rightarrow> Inl (PrimitiveThrew, st)
      | Some (artifactVkAsFields, artifactVkHash) \<Rightarrow>
          Inr ((), st\<lparr>summaryVkAsFields := Some artifactVkAsFields,
                       summaryVkHash := Some artifactVkHash\<rparr>)))))"

definition combineProofs ::
  "'fr field_env \<Rightarrow> 'w backend_env \<Rightarrow> ('fr, 'sc) tree_state \<Rightarrow> ProofArtifact \<Rightarrow>
     ProofArtifact option \<Rightarrow> nat \<Rightarrow> ('fr, 'sc, ProofArtifact) tree_result" where
  "combineProofs fenv benv st left right level =
     (let isLeafLevel = (level = 0) in
      case (if isLeafLevel then Inr (leafVkAsFields st, leafVkHash st)
            else if summaryVkAsFields st = None then Inl (MissingSummaryKey, st)
            else Inr (summaryVkAsFields st, summaryVkHash st)) of
        Inl es \<Rightarrow> Inl es
      | Inr (vkAsFields, vkHash) \<Rightarrow>
     (let hasRight = (right \<noteq> None);
          emptyProof = replicate (length (pa_proofAsFields left)) ''0x0'';
          emptyPublicInputs = [''0x0'', ''0x0'', ''0x0''] in
      case zeroHashes st of
        None \<Rightarrow> Inl (UndefinedOperand, st)
      | Some zh \<Rightarrow>
     (let zeroLeafForLevel = js_index zh level in
      case (if \<not> js_truthy (summaryVkHash st)
            then precomputeSummaryVkHash fenv benv st left vkAsFields vkHash
            else Inr ((), st)) of
        Inl es \<Rightarrow> Inl es
      | Inr (u, st1) \<Rightarrow>
     (case (if hasRight then Some ''0x0'' else map_option (Fr_toString fenv) zeroLeafForLevel) of
        None \<Rightarrow> Inl (UndefinedOperand, st1)
      | Some hint \<Rightarrow>
     (let summaryInputs =
            \<lparr>verification_key = vkAsFields,
             vkey_hash = vkHash,
             proof_left = pa_proofAsFields left,
             proof_right =
               (hasRight, case right of Some r \<Rightarrow> pa_proofAsFields r | None \<Rightarrow> emptyProof),
             public_inputs_left = pa_publicInputs left,
             public_inputs_right =
               (hasRight, case right of Some r \<Rightarrow> pa_publicInputs r | None \<Rightarrow> emptyPublicInputs),
             zero_leaf_hint = (\<not> hasRight, hint),
             summary_vkey_hash = summaryVkHash st1\<rparr> in
      if \<not> summaryNoir st1 then Inl (UndefinedOperand, st1) else
      case summaryNoir_execute benv summaryInputs of
        None \<Rightarrow> Inl (PrimitiveThrew, st1)
      | Some (witness, sumOut, rootOut, outVkeyHash) \<Rightarrow>
     (if \<not> summaryBackend st1 then Inl (UndefinedOperand, st1) else
      case summaryBackend_generateProof benv witness of
        None \<Rightarrow> Inl (PrimitiveThrew, st1)
      | Some proof \<Rightarrow>
     (case summaryBackend_verifyProof benv proof of
        None \<Rightarrow> Inl (PrimitiveThrew, st1)
      | Some isValid \<Rightarrow>
     (if \<not> isValid then Inl (InvalidSummaryProof, st1) else
      case (if summaryVkAsFields st1 = None then
              (case summaryBackend_generateRecursiveProofArtifacts benv (pd_proof proof) 3 of
                 None \<Rightarrow> Inl (PrimitiveThrew, st1)
               | Some (artifactVkAsFields, artifactVkHash) \<Rightarrow>
                   Inr (st1\<lparr>summaryVkAsFields := Some artifactVkAsFields,
                            summaryVkHash := Some artifactVkHash\<rparr>))
            else Inr st1) of
        Inl es \<Rightarrow> Inl es
      | Inr st2 \<Rightarrow>
     (let proofAsFields = proofBytesToFields (pd_proof proof);
          combinedValue = pa_value left + (case right of Some r \<Rightarrow> pa_value r | None \<Rightarrow> 0)
      in Inr (\<lparr>pa_proof = pd_proof proof,
               pa_proofAsFields = proofAsFields,
               pa_publicInputs = [sumOut, rootOut, outVkeyHash],
               pa_value = combinedValue\<rparr>, st2))))))))))"

subsection \<open>\<open>buildTree\<close>\<close>

text \<open>The inner loop \<open>for (let i = 0; i < currentLevel.length; i += 2)\<close>.\<close>

function combine_level ::
  "'fr field_env \<Rightarrow> 'w backend_env \<Rightarrow> ('fr, 'sc) tree_state \<Rightarrow> ProofArtifact list \<Rightarrow> nat \<Rightarrow>
     nat \<Rightarrow> ProofArtifact list \<Rightarrow> ('fr, 'sc, ProofArtifact list) tree_result" where
  "combine_level fenv benv st currentLevel level i nextLevel =
     (if i < length currentLevel then
        (let left = currentLevel ! i;
             right = (if i + 1 < length currentLevel then Some (currentLevel ! (i + 1)) else None)
         in case combineProofs fenv benv st left right level of
              Inl es \<Rightarrow> Inl es
            | Inr (combined, st') \<Rightarrow>
                combine_level fenv benv st' currentLevel level (i + 2) (nextLevel @ [combined]))
      else Inr (nextLevel, st))"
  by pat_completeness auto
termination
  by (relation "measure (\<lambda>(fenv, benv, st, currentLevel, level, i, nextLevel).
                           length currentLevel - i)") auto

declare combine_level.simps [simp del]

lemma combine_level_length:
  "combine_level fenv benv st cur level i acc = Inr (nxt, st') \<Longrightarrow>
     length nxt = length acc + (length cur + 1 - i) div 2"
proof (induction fenv benv st cur level i acc rule: combine_level.induct)
  case (1 fenv benv st cur level i acc)
  show ?case
  proof (cases "i < length cur")
    case False
    with "1.prems" show ?thesis
      by (subst (asm) combine_level.simps) simp
  next
    case True
    let ?right = "if i + 1 < length cur then Some (cur ! (i + 1)) else None"
    from True "1.prems" obtain c st1 where
      c: "combineProofs fenv benv st (cur ! i) ?right level = Inr (c, st1)" and
      rec: "combine_level fenv benv st1 cur level (i + 2) (acc @ [c]) = Inr (nxt, st')"
      by (subst (asm) combine_level.simps) (auto simp: Let_def split: sum.splits)
    have "length nxt = length (acc @ [c]) + (length cur + 1 - (i + 2)) div 2"
      by (rule "1.IH" [OF True refl refl c refl rec])
    moreover from True have "(length cur + 1 - i) div 2 = Suc ((length cur + 1 - (i + 2)) div 2)"
      by presburger
    ultimately show ?thesis by simp
  qed
qed

text \<open>The outer loop \<open>while (currentLevel.length > 1)\<close>.\<close>

function buildTree_loop ::
  "'fr field_env \<Rightarrow> 'w backend_env \<Rightarrow> ('fr, 'sc) tree_state \<Rightarrow> ProofArtifact list \<Rightarrow> nat \<Rightarrow>
     ('fr, 'sc, ProofArtifact list) tree_result" where
  "buildTree_loop fenv benv st currentLevel level =
     (if length currentLevel > 1 then
        (case combine_level fenv benv st currentLevel level 0 [] of
           Inl es \<Rightarrow> Inl es
         | Inr (nextLevel, st') \<Rightarrow> buildTree_loop fenv benv st' nextLevel (level + 1))
      else Inr (currentLevel, st))"
  by pat_completeness auto
termination
proof (relation "measure (\<lambda>(fenv, benv, st, currentLevel, level). length currentLevel)")
  show "wf (measure (\<lambda>(fenv :: 'fr field_env, benv :: 'w backend_env, st :: ('fr, 'sc) tree_state,
                         currentLevel :: ProofArtifact list, level :: nat). length currentLevel))"
    by simp
next
  fix fenv :: "'fr field_env" and benv :: "'w backend_env"
    and st st' :: "('fr, 'sc) tree_state" and currentLevel nextLevel :: "ProofArtifact list"
    and level :: nat and x2 :: "ProofArtifact list \<times> ('fr, 'sc) tree_state"
  assume gt: "1 < length currentLevel"
    and cl: "combine_level fenv benv st currentLevel level 0 [] = Inr x2"
    and x2: "(nextLevel, st') = x2"
  from cl x2 have "length nextLevel = (length currentLevel + 1) div 2"
    using combine_level_length [of fenv benv st currentLevel level 0 "[]" nextLevel st'] by simp
  with gt show "((fenv, benv, st', nextLevel, level + 1), (fenv, benv, st, currentLevel, level))
       \<in> measure (\<lambda>(fenv, benv, st, currentLevel, level). length currentLevel)"
    by simp
qed

declare buildTree_loop.simps [simp del]

text \<open>
  \<open>return currentLevel[0]\<close>: for an empty list of proofs the result is \<open>undefined\<close>
  (\<open>None\<close>).
\<close>

definition buildTree ::
  "'fr field_env \<Rightarrow> 'w backend_env \<Rightarrow> ('fr, 'sc) tree_state \<Rightarrow> ProofArtifact list \<Rightarrow>
     ('fr, 'sc, ProofArtifact option) tree_result" where
  "buildTree fenv benv st proofs =
     (case buildTree_loop fenv benv st proofs 0 of
        Inl es \<Rightarrow> Inl es
      | Inr (currentLevel, st') \<Rightarrow> Inr (js_index currentLevel 0, st'))"

subsection \<open>\<open>initialize\<close> and \<open>prove\<close>\<close>

text \<open>
  \<open>initialize\<close> also calls \<open>getZeroHashes(20)\<close>, so it runs on the instance state and on
  the module's zero-hash cache.
\<close>

definition initialize ::
  "'fr field_env \<Rightarrow> ('fr, 'pt, 'sc, 'ca, 'pre) crypto_env \<Rightarrow> 'w backend_env \<Rightarrow>
     ('ca, 'sc) ProofTreeConfig \<Rightarrow> ('fr, 'sc) tree_state \<Rightarrow> 'fr zero_cache \<Rightarrow>
     (error \<times> ('fr, 'sc) tree_state \<times> 'fr zero_cache) + (('fr, 'sc) tree_state \<times> 'fr zero_cache)" where
  "initialize fenv cenv benv cfg st zc =
     (if noteNoir st then Inr (st, zc) else
      let st1 = st\<lparr>noteNoir := True\<rparr> in
      if \<not> noteNoir_init benv then Inl (PrimitiveThrew, st1, zc) else
      let st2 = st1\<lparr>summaryNoir := True\<rparr> in
      if \<not> summaryNoir_init benv then Inl (PrimitiveThrew, st2, zc) else
      let st3 = st2\<lparr>noteBackend := True, summaryBackend := True\<rparr> in
      case getPreaddress cenv (recipientCompleteAddress cfg) of
        None \<Rightarrow> Inl (PrimitiveThrew, st3, zc)
      | Some preaddress \<Rightarrow>
     (case computeAddressSecret cenv preaddress (ivskM cfg) of
        None \<Rightarrow> Inl (PrimitiveThrew, st3, zc)
      | Some secret \<Rightarrow>
     (let st4 = st3\<lparr>addressSecret := Some secret\<rparr> in
      case getZeroHashes fenv zc 20 of
        Inl e \<Rightarrow> Inl (e, st4, zc)
      | Inr (table, zc') \<Rightarrow> Inr (st4\<lparr>zeroHashes := Some table\<rparr>, zc'))))"

record ProofTreeResult =
  result_proof :: "byte list"
  result_sum :: int
  result_root :: "string option"
  result_vkeyHash :: "string option"

definition prove ::
  "'fr field_env \<Rightarrow> ('fr, 'pt, 'sc, 'ca, 'pre) crypto_env \<Rightarrow> 'w backend_env \<Rightarrow>
     ('ca, 'sc) ProofTreeConfig \<Rightarrow> ('fr, 'sc) tree_state \<Rightarrow> 'fr zero_cache \<Rightarrow>
     (error \<times> ('fr, 'sc) tree_state \<times> 'fr zero_cache) +
     (ProofTreeResult \<times> ('fr, 'sc) tree_state \<times> 'fr zero_cache)" where
  "prove fenv cenv benv cfg st zc =
     (case initialize fenv cenv benv cfg st zc of
        Inl esz \<Rightarrow> Inl esz
      | Inr (st1, zc1) \<Rightarrow>
     (case proveLeaves fenv cenv benv cfg st1 of
        Inl (e, s) \<Rightarrow> Inl (e, s, zc1)
      | Inr (leafProofs, st2) \<Rightarrow>
     (case buildTree fenv benv st2 leafProofs of
        Inl (e, s) \<Rightarrow> Inl (e, s, zc1)
      | Inr (None, st3) \<Rightarrow> Inl (UndefinedOperand, st3, zc1)
      | Inr (Some finalProof, st3) \<Rightarrow>
     (let sumHex = js_index (pa_publicInputs finalProof) 0;
          rootHex = js_index (pa_publicInputs finalProof) 1;
          vkeyHashHex = js_index (pa_publicInputs finalProof) 2 in
      case (case sumHex of None \<Rightarrow> None | Some h \<Rightarrow> BigInt_ofString benv h) of
        None \<Rightarrow> Inl (PrimitiveThrew, st3, zc1)
      | Some sumBig \<Rightarrow>
          Inr (\<lparr>result_proof = pa_proof finalProof,
                result_sum = sumBig,
                result_root = rootHex,
                result_vkeyHash = vkeyHashHex\<rparr>, st3, zc1)))))"

subsection \<open>The calls of \<open>combineProofs\<close> that \<open>buildTree\<close> makes\<close>

text \<open>
  \<open>called_in_level \<dots> st currentLevel level i (s, l)\<close>: the inner loop, started at index
  \<open>i\<close> in state \<open>st\<close>, calls \<open>combineProofs\<close> in state \<open>s\<close> with level argument \<open>l\<close>. The
  loop goes on to the next pair only after the call for the current pair has returned.
\<close>

inductive called_in_level ::
  "'fr field_env \<Rightarrow> 'w backend_env \<Rightarrow> ('fr, 'sc) tree_state \<Rightarrow> ProofArtifact list \<Rightarrow> nat \<Rightarrow>
     nat \<Rightarrow> ('fr, 'sc) tree_state \<times> nat \<Rightarrow> bool"
  for fenv :: "'fr field_env" and benv :: "'w backend_env" where
  call_here:
    "i < length currentLevel \<Longrightarrow> called_in_level fenv benv st currentLevel level i (st, level)"
| call_later:
    "i < length currentLevel \<Longrightarrow>
     combineProofs fenv benv st (currentLevel ! i)
       (if i + 1 < length currentLevel then Some (currentLevel ! (i + 1)) else None) level
       = Inr (combined, st') \<Longrightarrow>
     called_in_level fenv benv st' currentLevel level (i + 2) call \<Longrightarrow>
     called_in_level fenv benv st currentLevel level i call"

text \<open>
  \<open>called_in_tree \<dots> st currentLevel level (s, l)\<close>: the outer loop, entered with
  \<open>currentLevel\<close> at \<open>level\<close> in state \<open>st\<close>, calls \<open>combineProofs\<close> in state \<open>s\<close> with
  level argument \<open>l\<close>, in this level or, after this level is complete, in a later one.
\<close>

inductive called_in_tree ::
  "'fr field_env \<Rightarrow> 'w backend_env \<Rightarrow> ('fr, 'sc) tree_state \<Rightarrow> ProofArtifact list \<Rightarrow> nat \<Rightarrow>
     ('fr, 'sc) tree_state \<times> nat \<Rightarrow> bool"
  for fenv :: "'fr field_env" and benv :: "'w backend_env" where
  call_this_level:
    "1 < length currentLevel \<Longrightarrow>
     called_in_level fenv benv st currentLevel level 0 call \<Longrightarrow>
     called_in_tree fenv benv st currentLevel level call"
| call_next_level:
    "1 < length currentLevel \<Longrightarrow>
     combine_level fenv benv st currentLevel level 0 [] = Inr (nextLevel, st') \<Longrightarrow>
     called_in_tree fenv benv st' nextLevel (level + 1) call \<Longrightarrow>
     called_in_tree fenv benv st currentLevel level call"

section \<open>A small environment for concrete evaluation\<close>

text \<open>
  The theorems below hold for every environment. To evaluate the model on concrete
  inputs, field elements are taken to be natural numbers with simple arithmetic
  functions in place of the hash and the conversions. A number from \<open>2 ^ 254\<close> on stands
  for a field object whose value is not below the modulus: its \<open>toBigInt\<close> throws.
\<close>

definition toy_fenv :: "nat field_env" where
  "toy_fenv =
     \<lparr>Fr_ZERO = 0,
      Fr_fromBuffer = (\<lambda>bs. Some (sum_list (map unat bs))),
      Fr_toBuffer = (\<lambda>n. replicate 32 (of_nat n)),
      Fr_toString = nat_toString,
      Fr_toBigInt = (\<lambda>n. if n < 2 ^ 254 then Some (int n) else None),
      poseidon2Hash = (\<lambda>xs. Suc (2 * sum_list xs)),
      poseidon2HashWithSeparator = (\<lambda>xs sep. sum_list xs + nat sep)\<rparr>"

text \<open>The cache after \<open>getZeroHashes(2)\<close>, and after a following \<open>getZeroHashes(3)\<close>.\<close>

definition toy_cache2 :: "nat zero_cache" where
  "toy_cache2 = \<lparr>cachedZeroHashes = Some [0, 1, 5], cachedMaxDepth = 2, poseidonCalls = 2\<rparr>"

definition toy_cache3 :: "nat zero_cache" where
  "toy_cache3 = \<lparr>cachedZeroHashes = Some [0, 1, 5, 21], cachedMaxDepth = 3, poseidonCalls = 5\<rparr>"

text \<open>
  Collaborators of the decryptor: the x-coordinate \<open>0\<close> has no curve point, the cipher
  rejects an empty input and otherwise returns its input.
\<close>

definition toy_cenv :: "(nat, nat, nat, nat, nat) crypto_env" where
  "toy_cenv =
     \<lparr>Point_fromXAndSign = (\<lambda>x signBit. if x = 0 then None else Some x),
      Point_x = (\<lambda>p. p),
      Point_y = (\<lambda>p. p),
      getPreaddress = (\<lambda>ca. Some ca),
      computeAddressSecret = (\<lambda>pre sk. Some (pre + sk)),
      deriveEcdhSharedSecret = (\<lambda>sc pt. Some (sc * pt)),
      decryptBufferCBC = (\<lambda>data iv key. if data = [] then None else Some data),
      Scalar_toString = nat_toString,
      SYMMETRIC_KEY = 1,
      SYMMETRIC_KEY_2 = 2\<rparr>"

text \<open>
  An encrypted log of 128 bytes: a 32-byte tag, the x-coordinate \<open>1\<close>, and two packed
  fields that unpack to the sign byte \<open>1\<close>, a header declaring a body of 33 bytes, and 45
  body bytes.
\<close>

definition toy_log :: "byte list" where
  "toy_log =
     replicate 32 0 @ (replicate 31 0 @ [1])
     @ ([0, 1] @ [0, 33] @ replicate 14 0 @ replicate 14 1)
     @ (0 # replicate 31 1)"

text \<open>
  A backend whose circuits always succeed: the note circuit declares the number of
  plaintext fields as the value, proofs are empty byte strings that verify.
\<close>

definition toy_benv :: "nat backend_env" where
  "toy_benv =
     \<lparr>noteNoir_init = True,
      summaryNoir_init = True,
      noteNoir_execute = (\<lambda>inp. Some (0, plaintext_len inp, ''leaf'', ''vk'')),
      noteBackend_generateProof = (\<lambda>w. Some \<lparr>pd_proof = [], pd_publicInputs = []\<rparr>),
      noteBackend_verifyProof = (\<lambda>p. Some True),
      noteBackend_generateRecursiveProofArtifacts = (\<lambda>bs n. Some ([''leafvk''], ''0x1'')),
      summaryNoir_execute = (\<lambda>inp. Some (0, ''sum'', ''root'', ''vk'')),
      summaryBackend_generateProof = (\<lambda>w. Some \<lparr>pd_proof = [], pd_publicInputs = []\<rparr>),
      summaryBackend_verifyProof = (\<lambda>p. Some True),
      summaryBackend_generateRecursiveProofArtifacts = (\<lambda>bs n. Some ([''sumvk''], ''0x2'')),
      BigInt_ofString = (\<lambda>s. if s = ''1'' then Some 1 else None)\<rparr>"

definition toy_cfg :: "(nat, nat) ProofTreeConfig" where
  "toy_cfg = \<lparr>cfg_notes = [toy_log], recipientCompleteAddress = 3, ivskM = 4\<rparr>"

text \<open>
  An initialized instance before any combination, and the same instance once the summary
  key is cached.
\<close>

definition toy_tree :: "(nat, nat) tree_state" where
  "toy_tree =
     \<lparr>noteNoir = True, noteBackend = True, summaryNoir = True, summaryBackend = True,
      addressSecret = Some 7, zeroHashes = Some [0, 1, 5, 21],
      leafVkAsFields = Some [''leafvk''], leafVkHash = Some ''0x1'',
      summaryVkAsFields = None, summaryVkHash = None\<rparr>"

definition toy_tree_keyed :: "(nat, nat) tree_state" where
  "toy_tree_keyed = toy_tree\<lparr>summaryVkAsFields := Some [''sumvk''], summaryVkHash := Some ''0x2''\<rparr>"

text \<open>Leaf artifacts with the values 4, 6, 8, 1 and 10, and what the toy circuits make of them.\<close>

definition toy_leaf :: "int \<Rightarrow> ProofArtifact" where
  "toy_leaf v = \<lparr>pa_proof = [], pa_proofAsFields = [], pa_publicInputs = [''v'', ''leaf'', ''vk''],
                 pa_value = v\<rparr>"

definition toy_node :: "int \<Rightarrow> ProofArtifact" where
  "toy_node v = \<lparr>pa_proof = [], pa_proofAsFields = [], pa_publicInputs = [''sum'', ''root'', ''vk''],
                 pa_value = v\<rparr>"

definition toy_leaves :: "ProofArtifact list" where
  "toy_leaves = [toy_leaf 4, toy_leaf 6, toy_leaf 8, toy_leaf 1, toy_leaf 10]"

text \<open>
  A backend on which the throwaway bootstrap cannot complete for one kind of sample: the
  summary circuit rejects the placeholder hash \<open>0x0\<close> together with a left proof whose
  fields are \<open>[second]\<close>. The leaves with such proofs serve as the batch of a second run.
\<close>

definition toy_benv_reuse :: "nat backend_env" where
  "toy_benv_reuse =
     toy_benv\<lparr>summaryNoir_execute :=
       (\<lambda>inp. if summary_vkey_hash inp = Some ''0x0'' \<and> proof_left inp = [''second'']
              then None else Some (0, ''sum'', ''root'', ''vk''))\<rparr>"

definition toy_leaf_second :: "int \<Rightarrow> ProofArtifact" where
  "toy_leaf_second v =
     \<lparr>pa_proof = [], pa_proofAsFields = [''second''],
      pa_publicInputs = [''v'', ''leaf'', ''vk''], pa_value = v\<rparr>"

section \<open>Properties of the Merkle accumulator\<close>

lemma toy_fenv_simps [simp]:
  "Fr_ZERO toy_fenv = 0"
  "Fr_fromBuffer toy_fenv bs = Some (sum_list (map unat bs))"
  "Fr_toBuffer toy_fenv n = replicate 32 (of_nat n)"
  "Fr_toString toy_fenv = nat_toString"
  "Fr_toBigInt toy_fenv n = (if n < 2 ^ 254 then Some (int n) else None)"
  "poseidon2Hash toy_fenv xs = Suc (2 * sum_list xs)"
  "poseidon2HashWithSeparator toy_fenv xs sep = sum_list xs + nat sep"
  by (simp_all add: toy_fenv_def)

subsection \<open>Slices with natural-number bounds\<close>

lemma nat_int_diff: "nat (int b - int a) = b - a"
  by arith

lemma js_slice_from_nat: "js_slice_from xs (int n) = drop n xs"
  by (simp add: js_slice_from_def js_slice_def Let_def min_def)

lemma js_slice_nat: "js_slice xs (int a) (int b) = take (b - a) (drop a xs)"
  by (auto simp: js_slice_def Let_def min_def nat_int_diff)

lemma js_slice_0_nat: "js_slice xs 0 (int b) = take b xs"
  using js_slice_nat [of xs 0 b] by simp

subsection \<open>\<open>buildIMT\<close> against the specification's root\<close>

lemma pad_loop_eq: "pad_loop z n xs = xs @ replicate (n - length xs) z"
proof (induction z n xs rule: pad_loop.induct)
  case (1 z n xs)
  show ?case
  proof (cases "length xs < n")
    case True
    then have "n - length xs = Suc (n - Suc (length xs))" by arith
    with True "1.IH" show ?thesis
      by (subst pad_loop.simps) (simp add: replicate_app_Cons_same)
  next
    case False
    then show ?thesis by (subst pad_loop.simps) simp
  qed
qed

text \<open>On a level of even length the unchecked read of the right sibling is in range.\<close>

lemma hash_level_even:
  "i \<le> length cur \<Longrightarrow> even (length cur - i) \<Longrightarrow>
     hash_level env cur i acc = Inr (acc @ spec_pairs (poseidon2Hash env) (drop i cur))"
proof (induction env cur i acc rule: hash_level.induct)
  case (1 env cur i acc)
  show ?case
  proof (cases "i < length cur")
    case False
    then show ?thesis by (subst hash_level.simps) simp
  next
    case True
    have lt: "i + 1 < length cur"
    proof (rule ccontr)
      assume "\<not> i + 1 < length cur"
      with True have "length cur - i = 1" by arith
      with "1.prems" show False by simp
    qed
    then have r: "js_index cur (i + 1) = Some (cur ! (i + 1))"
      by (simp add: js_index_def)
    from lt have "length cur - i = Suc (Suc (length cur - (i + 2)))" by arith
    with "1.prems" have ev: "even (length cur - (i + 2))" by simp
    from lt have "drop i cur = cur ! i # drop (Suc i) cur"
      by (simp add: Cons_nth_drop_Suc)
    moreover from lt have "drop (Suc i) cur = cur ! (i + 1) # drop (i + 2) cur"
      by (simp add: Cons_nth_drop_Suc)
    ultimately have dr: "drop i cur = cur ! i # cur ! (i + 1) # drop (i + 2) cur"
      by simp
    from lt have le: "i + 2 \<le> length cur" by simp
    have "hash_level env cur (i + 2) (acc @ [poseidon2Hash env [cur ! i, cur ! (i + 1)]]) =
            Inr ((acc @ [poseidon2Hash env [cur ! i, cur ! (i + 1)]]) @
                 spec_pairs (poseidon2Hash env) (drop (i + 2) cur))"
      by (rule "1.IH" [OF True r le ev])
    with True r dr show ?thesis by (subst hash_level.simps) simp
  qed
qed

lemma build_levels_pow2:
  "length cur = 2 ^ k \<Longrightarrow> build_levels env cur = Inr (spec_reduce (poseidon2Hash env) cur)"
proof (induction k arbitrary: cur)
  case 0
  then show ?case by (subst build_levels.simps, subst spec_reduce.simps) simp
next
  case (Suc k)
  have "0 < (2::nat) ^ k" by simp
  then have "1 < 2 * (2::nat) ^ k" by arith
  with Suc.prems have gt: "1 < length cur" by simp
  from Suc.prems have "even (length cur - 0)" by simp
  then have hl: "hash_level env cur 0 [] = Inr (spec_pairs (poseidon2Hash env) cur)"
    using hash_level_even [of 0 cur env "[]"] by simp
  from Suc.prems have "length (spec_pairs (poseidon2Hash env) cur) = 2 ^ k"
    by (simp add: spec_pairs_length)
  from Suc.IH [OF this] gt hl show ?case
    by (subst build_levels.simps, subst spec_reduce.simps) simp
qed

lemma spec_reduce_length: "xs \<noteq> [] \<Longrightarrow> length (spec_reduce h xs) = 1"
proof (induction h xs rule: spec_reduce.induct)
  case (1 h xs)
  show ?case
  proof (cases "1 < length xs")
    case True
    then have "0 < length (spec_pairs h xs)"
      by (simp add: spec_pairs_length)
    then have "spec_pairs h xs \<noteq> []" by simp
    with "1.IH" True show ?thesis by (subst spec_reduce.simps) simp
  next
    case False
    with "1.prems" have "length xs = 1" by (cases xs) auto
    with False show ?thesis by (subst spec_reduce.simps) simp
  qed
qed

lemma buildIMT_spec: "buildIMT env leaves = Inr (spec_buildRoot env leaves)"
proof (cases leaves)
  case Nil
  then show ?thesis by (simp add: buildIMT_def spec_buildRoot_def)
next
  case (Cons x xs)
  let ?p = "spec_pad (Fr_ZERO env) leaves"
  have pad: "pad_loop (Fr_ZERO env) (nextPow2 (length leaves)) leaves = ?p"
    by (simp add: pad_loop_eq nextPow2_def spec_pad_def)
  have "length ?p = 2 ^ ceillog2 (length leaves)"
    using le_two_power_ceillog2 [of "length leaves"] by (simp add: spec_pad_def)
  then have bl: "build_levels env ?p = Inr (spec_reduce (poseidon2Hash env) ?p)"
    by (rule build_levels_pow2)
  from Cons have "?p \<noteq> []" by (simp add: spec_pad_def)
  then have "length (spec_reduce (poseidon2Hash env) ?p) = 1"
    by (rule spec_reduce_length)
  then obtain r where r: "spec_reduce (poseidon2Hash env) ?p = [r]"
    by (cases "spec_reduce (poseidon2Hash env) ?p") auto
  from Cons pad bl r show ?thesis
    by (simp add: buildIMT_def spec_buildRoot_def js_index_def)
qed

lemma buildIMT_single: "buildIMT env [x] = Inr x"
  by (simp add: buildIMT_def nextPow2_def pad_loop.simps [of _ _ "[x]"]
      build_levels.simps [of env "[x]"] js_index_def)

lemma buildIMT_three:
  "buildIMT env [a, b, c] =
     Inr (poseidon2Hash env [poseidon2Hash env [a, b], poseidon2Hash env [c, Fr_ZERO env]])"
proof -
  have c3: "ceillog2 3 = 2" by (rule ceillog2_eqI) simp_all
  have l: "length [a, b, c] = 3" by simp
  have "spec_pad (Fr_ZERO env) [a, b, c] = [a, b, c] @ replicate (2 ^ ceillog2 3 - 3) (Fr_ZERO env)"
    unfolding spec_pad_def l ..
  then have "spec_pad (Fr_ZERO env) [a, b, c] = [a, b, c, Fr_ZERO env]"
    by (simp add: c3)
  then show ?thesis
    by (simp add: buildIMT_spec spec_buildRoot_def spec_reduce.simps)
qed

text \<open>
  Claim C2. \<open>buildIMT\<close> returns the additive identity for the empty list, the leaf
  itself for a single leaf (whatever the hash is), and in general the one element left
  after padding the leaves on the right with the additive identity up to the next power
  of two and hashing adjacent pairs until one element remains; the unchecked read of a
  right sibling never meets \<open>undefined\<close>. For three leaves that is the hash of the hash of
  the first two and the hash of the third with the additive identity.
  \<open>buildIMTFromCiphertexts\<close> is that root over the leaf hashes of the ciphertexts, or the
  failure of the first leaf hash that fails.
\<close>

theorem buildIMT_is_padded_pairwise_root:
  "buildIMT env [] = Inr (Fr_ZERO env)
   \<and> buildIMT env [x] = Inr x
   \<and> buildIMT env leaves = Inr (spec_buildRoot env leaves)
   \<and> length (spec_reduce (poseidon2Hash env) (spec_pad (Fr_ZERO env) (x # xs))) = 1
   \<and> buildIMT env [a, b, c] =
       Inr (poseidon2Hash env [poseidon2Hash env [a, b], poseidon2Hash env [c, Fr_ZERO env]])
   \<and> buildIMTFromCiphertexts env ciphertexts =
       (case all_leaves env ciphertexts of
          Inl e \<Rightarrow> Inl e
        | Inr ls \<Rightarrow> Inr (spec_buildRoot env ls))"
proof (intro conjI)
  show "length (spec_reduce (poseidon2Hash env) (spec_pad (Fr_ZERO env) (x # xs))) = 1"
    by (rule spec_reduce_length) (simp add: spec_pad_def)
  show "buildIMT env [a, b, c] =
       Inr (poseidon2Hash env [poseidon2Hash env [a, b], poseidon2Hash env [c, Fr_ZERO env]])"
    by (rule buildIMT_three)
  show "buildIMT env [] = Inr (Fr_ZERO env)"
    by (simp add: buildIMT_def)
  show "buildIMT env [x] = Inr x"
    by (rule buildIMT_single)
  show "buildIMT env leaves = Inr (spec_buildRoot env leaves)"
    by (rule buildIMT_spec)
  show "buildIMTFromCiphertexts env ciphertexts =
          (case all_leaves env ciphertexts of
             Inl e \<Rightarrow> Inl e
           | Inr ls \<Rightarrow> Inr (spec_buildRoot env ls))"
    by (simp add: buildIMTFromCiphertexts_def buildIMT_spec split: sum.splits)
qed

subsection \<open>Bytes that reach the leaf hash\<close>

lemma paddedCiphertextBuffer_eq:
  "paddedCiphertextBuffer c =
     take 544 (drop 32 c) @ replicate (544 - length (take 544 (drop 32 c))) 0"
proof -
  have "js_slice_from c 32 = drop 32 c"
    using js_slice_from_nat [of c 32] by simp
  then show ?thesis
    by (simp add: paddedCiphertextBuffer_def Buffer_copy_def Buffer_alloc_def
        MESSAGE_CIPHERTEXT_LEN_def Let_def min_def take_all)
qed

lemma paddedCiphertextBuffer_length: "length (paddedCiphertextBuffer c) = 544"
  by (simp add: paddedCiphertextBuffer_eq)

lemma paddedCiphertextBuffer_prefix:
  assumes "take 576 c = take 576 c'"
  shows "paddedCiphertextBuffer c = paddedCiphertextBuffer c'"
proof -
  have "take 544 (drop 32 c) = drop 32 (take 576 c)" by (simp add: drop_take)
  also have "\<dots> = drop 32 (take 576 c')" by (simp add: assms)
  also have "\<dots> = take 544 (drop 32 c')" by (simp add: drop_take)
  finally show ?thesis by (simp add: paddedCiphertextBuffer_eq)
qed

lemma hashCiphertextToLeaf_prefix:
  "take 576 c = take 576 c' \<Longrightarrow> hashCiphertextToLeaf env c = hashCiphertextToLeaf env c'"
  by (simp add: hashCiphertextToLeaf_def ciphertextChunks_def
      paddedCiphertextBuffer_prefix [of c c'])

lemma all_leaves_prefix:
  "list_all2 (\<lambda>c c'. take 576 c = take 576 c') cs cs' \<Longrightarrow> all_leaves env cs = all_leaves env cs'"
proof (induction cs cs' rule: list_all2_induct)
  case Nil
  show ?case by simp
next
  case (Cons c cs c' cs')
  then show ?case
    by (auto simp: hashCiphertextToLeaf_prefix [of c c'] split: sum.splits)
qed

text \<open>
  Claim C10. The buffer that is cut into the 17 fields has \<open>17 * 32 = 544\<close> bytes, filled
  from the tag-stripped ciphertext. Two lists of ciphertexts that agree, element by
  element, on the first 576 bytes have equal leaf hashes and equal roots: no byte at
  offset 576 or beyond reaches the leaf or the root.
\<close>

theorem leaf_and_root_ignore_bytes_from_576:
  assumes "list_all2 (\<lambda>c c'. take 576 c = take 576 c') cs cs'"
  shows "list_all2 (\<lambda>c c'. hashCiphertextToLeaf env c = hashCiphertextToLeaf env c') cs cs'
       \<and> buildIMTFromCiphertexts env cs = buildIMTFromCiphertexts env cs'
       \<and> length (paddedCiphertextBuffer c) = 17 * 32"
proof -
  from assms have "list_all2 (\<lambda>c c'. hashCiphertextToLeaf env c = hashCiphertextToLeaf env c') cs cs'"
    by (rule list_all2_mono) (rule hashCiphertextToLeaf_prefix)
  moreover from assms have "buildIMTFromCiphertexts env cs = buildIMTFromCiphertexts env cs'"
    by (simp add: buildIMTFromCiphertexts_def all_leaves_prefix [of cs cs'])
  ultimately show ?thesis by (simp add: paddedCiphertextBuffer_length)
qed

theorem leaf_and_root_ignore_bytes_from_576_witness:
  "list_all2 (\<lambda>c c'. take 576 c = take 576 c')
     [replicate 576 (1::byte) @ [2]] [replicate 576 1 @ [3, 4]]
   \<and> hashCiphertextToLeaf toy_fenv (replicate 576 1 @ [2]) =
       hashCiphertextToLeaf toy_fenv (replicate 576 1 @ [3, 4])
   \<and> buildIMTFromCiphertexts toy_fenv [replicate 576 1 @ [2]] =
       buildIMTFromCiphertexts toy_fenv [replicate 576 1 @ [3, 4]]"
proof -
  have h: "list_all2 (\<lambda>c c'. take 576 c = take 576 c')
             [replicate 576 (1::byte) @ [2]] [replicate 576 1 @ [3, 4]]"
    by simp
  from leaf_and_root_ignore_bytes_from_576 [OF h, of toy_fenv] h show ?thesis by simp
qed

section \<open>Properties of the zero-hash cache\<close>

lemma spec_zeroTable_Suc:
  "spec_zeroTable env (Suc n) = spec_zeroTable env n @ [spec_zeroHash env (Suc n)]"
  by (simp add: spec_zeroTable_def)

lemma spec_zeroTable_length: "length (spec_zeroTable env n) = Suc n"
  by (simp add: spec_zeroTable_def)

lemma spec_zeroTable_nth: "k \<le> n \<Longrightarrow> spec_zeroTable env n ! k = spec_zeroHash env k"
  unfolding spec_zeroTable_def
  using nth_map_upt [of k "Suc n" 0 "spec_zeroHash env"] by simp

lemma spec_zeroTable_take: "k \<le> n \<Longrightarrow> take (Suc k) (spec_zeroTable env n) = spec_zeroTable env k"
  by (simp add: spec_zeroTable_def take_map min_def del: upt_Suc)

text \<open>
  Loop invariant of \<open>computeZeroHashes\<close>: before the iteration for \<open>i\<close> the array is the
  table up to depth \<open>i - 1\<close>, so the read of \<open>zeroHashes[i - 1]\<close> is in range.
\<close>

lemma zeroHashes_loop_table:
  "1 \<le> i \<Longrightarrow> i \<le> maxDepth + 1 \<Longrightarrow> zh = spec_zeroTable env (nat (i - 1)) \<Longrightarrow>
     zeroHashes_loop env maxDepth i zh calls =
       Inr (spec_zeroTable env (nat maxDepth), calls + nat (maxDepth + 1 - i))"
proof (induction env maxDepth i zh calls rule: zeroHashes_loop.induct)
  case (1 env maxDepth i zh calls)
  show ?case
  proof (cases "i \<le> maxDepth")
    case False
    with "1.prems" have "i = maxDepth + 1" by simp
    with False "1.prems" show ?thesis
      by (subst zeroHashes_loop.simps) simp
  next
    case True
    from "1.prems" have prev: "js_index zh (nat (i - 1)) = Some (spec_zeroHash env (nat (i - 1)))"
      by (simp add: js_index_def spec_zeroTable_length spec_zeroTable_nth)
    from "1.prems" have ni: "nat i = Suc (nat (i - 1))" by simp
    have nxt: "zh @ [poseidon2Hash env [spec_zeroHash env (nat (i - 1)), spec_zeroHash env (nat (i - 1))]]
             = spec_zeroTable env (nat (i + 1 - 1))"
      using "1.prems" ni by (simp add: spec_zeroTable_Suc)
    from "1.prems" True have "1 \<le> i + 1" "i + 1 \<le> maxDepth + 1" by simp_all
    from "1.IH" [OF True prev this nxt]
    have "zeroHashes_loop env maxDepth (i + 1)
            (zh @ [poseidon2Hash env [spec_zeroHash env (nat (i - 1)), spec_zeroHash env (nat (i - 1))]])
            (Suc calls) =
          Inr (spec_zeroTable env (nat maxDepth), Suc calls + nat (maxDepth + 1 - (i + 1)))" .
    moreover from True have "Suc calls + nat (maxDepth + 1 - (i + 1)) = calls + nat (maxDepth + 1 - i)"
      by simp
    ultimately show ?thesis using True prev
      by (subst zeroHashes_loop.simps) simp
  qed
qed

lemma computeZeroHashes_table:
  "computeZeroHashes env maxDepth = Inr (spec_zeroTable env (nat maxDepth), nat maxDepth)"
proof (cases "0 \<le> maxDepth")
  case True
  then show ?thesis
    using zeroHashes_loop_table [of 1 maxDepth "[Fr_ZERO env]" env 0]
    by (simp add: computeZeroHashes_def spec_zeroTable_def)
next
  case False
  then show ?thesis
    by (subst computeZeroHashes_def, subst zeroHashes_loop.simps) (simp add: spec_zeroTable_def)
qed

lemma getZeroHashes_hit:
  "cachedZeroHashes st = Some t \<Longrightarrow> maxDepth \<le> cachedMaxDepth st \<Longrightarrow>
     getZeroHashes env st maxDepth = Inr (js_slice t 0 (maxDepth + 1), st)"
  by (simp add: getZeroHashes_def)

lemma getZeroHashes_miss:
  "cachedZeroHashes st = None \<or> cachedMaxDepth st < maxDepth \<Longrightarrow>
     getZeroHashes env st maxDepth =
       Inr (spec_zeroTable env (nat maxDepth),
            st\<lparr>cachedZeroHashes := Some (spec_zeroTable env (nat maxDepth)),
               cachedMaxDepth := maxDepth,
               poseidonCalls := poseidonCalls st + nat maxDepth\<rparr>)"
  by (auto simp: getZeroHashes_def computeZeroHashes_table)

lemma getZeroHashes_inv:
  assumes "zero_cache_inv env st" "getZeroHashes env st maxDepth = Inr (t, st')"
  shows "zero_cache_inv env st'"
proof (cases "cachedZeroHashes st \<noteq> None \<and> maxDepth \<le> cachedMaxDepth st")
  case True
  with assms show ?thesis by (auto simp: getZeroHashes_def)
next
  case False
  then have "cachedZeroHashes st = None \<or> cachedMaxDepth st < maxDepth" by auto
  from getZeroHashes_miss [OF this, of env] assms(2) show ?thesis
    by (auto simp: zero_cache_inv_def)
qed

lemma reachable_inv: "zero_cache_reachable env st \<Longrightarrow> zero_cache_inv env st"
proof (induction rule: zero_cache_reachable.induct)
  case reach_initial
  show ?case by (simp add: zero_cache_inv_def initial_zero_cache_def)
next
  case (reach_call st maxDepth t st')
  then show ?case by (auto intro: getZeroHashes_inv)
qed

lemma getZeroHashes_table:
  assumes "zero_cache_inv env st" "0 \<le> maxDepth"
  shows "\<exists>st'. getZeroHashes env st maxDepth = Inr (spec_zeroTable env (nat maxDepth), st')"
proof (cases "cachedZeroHashes st \<noteq> None \<and> maxDepth \<le> cachedMaxDepth st")
  case True
  then obtain t where t: "cachedZeroHashes st = Some t" by auto
  with assms have tt: "t = spec_zeroTable env (nat (cachedMaxDepth st))"
    by (simp add: zero_cache_inv_def)
  from assms have "maxDepth + 1 = int (Suc (nat maxDepth))" by simp
  then have "js_slice t 0 (maxDepth + 1) = take (Suc (nat maxDepth)) t"
    by (simp only: js_slice_0_nat)
  also from assms True have "\<dots> = spec_zeroTable env (nat maxDepth)"
    unfolding tt by (intro spec_zeroTable_take) linarith
  finally show ?thesis using getZeroHashes_hit [OF t, of maxDepth env] True by simp
next
  case False
  then have "cachedZeroHashes st = None \<or> cachedMaxDepth st < maxDepth" by auto
  from getZeroHashes_miss [OF this, of env] show ?thesis by blast
qed

subsection \<open>Evaluation in the small environment\<close>

lemma toy_zeroTable_3: "spec_zeroTable toy_fenv 3 = [0, 1, 5, 21]"
  by (simp add: spec_zeroTable_def eval_nat_numeral)

lemma toy_zeroTable_2: "spec_zeroTable toy_fenv 2 = [0, 1, 5]"
  by (simp add: spec_zeroTable_def eval_nat_numeral)

lemma toy_getZeroHashes_2: "getZeroHashes toy_fenv initial_zero_cache 2 = Inr ([0, 1, 5], toy_cache2)"
  using getZeroHashes_miss [of initial_zero_cache 2 toy_fenv]
  by (simp add: initial_zero_cache_def toy_cache2_def toy_zeroTable_2)

lemma toy_getZeroHashes_3: "getZeroHashes toy_fenv toy_cache2 3 = Inr ([0, 1, 5, 21], toy_cache3)"
  using getZeroHashes_miss [of toy_cache2 3 toy_fenv]
  by (simp add: toy_cache2_def toy_cache3_def toy_zeroTable_3)

lemma toy_cache2_reachable: "zero_cache_reachable toy_fenv toy_cache2"
  by (rule reach_call [OF reach_initial toy_getZeroHashes_2])

lemma toy_cache3_reachable: "zero_cache_reachable toy_fenv toy_cache3"
  by (rule reach_call [OF toy_cache2_reachable toy_getZeroHashes_3])

subsection \<open>The recurrence of the returned table\<close>

text \<open>
  Claim C8. In every cache state that calls of \<open>getZeroHashes\<close> can leave behind, and for
  every \<open>maxDepth \<ge> 0\<close>, the call returns a table of \<open>maxDepth + 1\<close> entries whose entry
  0 is the additive identity and whose entry \<open>d\<close>, for \<open>1 \<le> d \<le> maxDepth\<close>, is the hash of
  two copies of entry \<open>d - 1\<close>.
\<close>

theorem getZeroHashes_recurrence:
  assumes "zero_cache_reachable env st" "0 \<le> maxDepth"
  shows "\<exists>t st'. getZeroHashes env st maxDepth = Inr (t, st')
           \<and> length t = nat maxDepth + 1
           \<and> t ! 0 = Fr_ZERO env
           \<and> (\<forall>d. 1 \<le> d \<and> d \<le> nat maxDepth \<longrightarrow>
                  t ! d = poseidon2Hash env [t ! (d - 1), t ! (d - 1)])"
proof -
  let ?T = "spec_zeroTable env (nat maxDepth)"
  from assms obtain st' where g: "getZeroHashes env st maxDepth = Inr (?T, st')"
    using getZeroHashes_table [OF reachable_inv] by blast
  have "\<forall>d. 1 \<le> d \<and> d \<le> nat maxDepth \<longrightarrow> ?T ! d = poseidon2Hash env [?T ! (d - 1), ?T ! (d - 1)]"
  proof (intro allI impI)
    fix d assume d: "1 \<le> d \<and> d \<le> nat maxDepth"
    then obtain k where k: "d = Suc k" by (cases d) auto
    with d show "?T ! d = poseidon2Hash env [?T ! (d - 1), ?T ! (d - 1)]"
      by (simp add: spec_zeroTable_nth)
  qed
  with g show ?thesis
    by (simp add: spec_zeroTable_length spec_zeroTable_nth)
qed

theorem getZeroHashes_recurrence_witness:
  "zero_cache_reachable toy_fenv toy_cache3 \<and> (0::int) \<le> 2
   \<and> getZeroHashes toy_fenv toy_cache3 2 = Inr ([0, 1, 5], toy_cache3)
   \<and> (\<exists>t st'. getZeroHashes toy_fenv toy_cache3 2 = Inr (t, st')
         \<and> length t = 3 \<and> t ! 0 = 0 \<and> t ! 1 = Suc (2 * (t ! 0 + t ! 0))
         \<and> t ! 2 = Suc (2 * (t ! 1 + t ! 1)))"
proof -
  have h: "(0::int) \<le> 2" by simp
  have e: "getZeroHashes toy_fenv toy_cache3 2 = Inr ([0, 1, 5], toy_cache3)"
    using getZeroHashes_hit [of toy_cache3 "[0, 1, 5, 21]" 2 toy_fenv] js_slice_0_nat [of "[0, 1, 5, 21::nat]" 3]
    by (simp add: toy_cache3_def)
  from getZeroHashes_recurrence [OF toy_cache3_reachable h] obtain t st' where
    t: "getZeroHashes toy_fenv toy_cache3 2 = Inr (t, st')" "length t = nat 2 + 1" "t ! 0 = Fr_ZERO toy_fenv"
       "\<forall>d. 1 \<le> d \<and> d \<le> nat 2 \<longrightarrow> t ! d = poseidon2Hash toy_fenv [t ! (d - 1), t ! (d - 1)]"
    by blast
  from t(4) have "t ! 1 = poseidon2Hash toy_fenv [t ! 0, t ! 0]" by force
  moreover from t(4) have "t ! 2 = poseidon2Hash toy_fenv [t ! 1, t ! 1]" by force
  ultimately show ?thesis using t(1,2,3) e toy_cache3_reachable by simp
qed

subsection \<open>Growth of the cache\<close>





section \<open>Properties of the note decryptor\<close>

lemma toy_cenv_simps [simp]:
  "Point_fromXAndSign toy_cenv x signBit = (if x = 0 then None else Some x)"
  "Point_x toy_cenv p = p"
  "Point_y toy_cenv p = p"
  "getPreaddress toy_cenv ca = Some ca"
  "computeAddressSecret toy_cenv pre sk = Some (pre + sk)"
  "deriveEcdhSharedSecret toy_cenv sc pt = Some (sc * pt)"
  "decryptBufferCBC toy_cenv data iv key = (if data = [] then None else Some data)"
  "Scalar_toString toy_cenv = nat_toString"
  "SYMMETRIC_KEY toy_cenv = 1"
  "SYMMETRIC_KEY_2 toy_cenv = 2"
  by (simp_all add: toy_cenv_def)

lemma js_slice_numeral [simp]:
  "js_slice xs (numeral a) (numeral b) = take (numeral b - numeral a) (drop (numeral a) xs)"
  "js_slice xs 0 (numeral b) = take (numeral b) xs"
  "js_slice xs 1 (numeral b) = take (numeral b - 1) (drop 1 xs)"
  using js_slice_nat [of xs "numeral a" "numeral b"] js_slice_nat [of xs 0 "numeral b"]
    js_slice_nat [of xs 1 "numeral b"]
  by simp_all

lemma js_slice_from_numeral [simp]: "js_slice_from xs (numeral a) = drop (numeral a) xs"
  using js_slice_from_nat [of xs "numeral a"] by simp

lemma restBytesOf_eq: "restBytesOf elog = unpackFieldsToBytes (drop 64 elog)"
  by (simp add: restBytesOf_def)

lemma bodyCiphertextOf_eq:
  "0 \<le> c \<Longrightarrow> bodyCiphertextOf rb c = take (min (nat c) (length rb - 17)) (drop 17 rb)"
  by (auto simp: bodyCiphertextOf_def js_slice_def Let_def min_def)

lemma byte_operand_bounds: "0 \<le> byte_operand buf i \<and> byte_operand buf i < 256"
proof (cases "js_index buf i")
  case None
  then show ?thesis by (simp add: byte_operand_def)
next
  case (Some b)
  have "uint b < 2 ^ LENGTH(8)" by (rule uint_lt2p)
  with Some show ?thesis by (simp add: byte_operand_def)
qed

lemma headerCiphertextLength_eq:
  "headerCiphertextLength hp = 256 * byte_operand hp 0 + byte_operand hp 1"
proof -
  let ?a = "byte_operand hp 0" and ?b = "byte_operand hp 1"
  have b: "0 \<le> ?b" "?b < 2 ^ 8" using byte_operand_bounds [of hp 1] by simp_all
  have "push_bit 8 ?a OR ?b = push_bit 8 ?a + ?b"
  proof (rule disjunctive_add [symmetric])
    fix n
    show "\<not> bit (push_bit 8 ?a) n \<or> \<not> bit ?b n"
    proof (cases "n < 8")
      case True
      then show ?thesis by (simp add: bit_push_bit_iff)
    next
      case False
      have "take_bit 8 ?b = ?b" using b by (simp add: take_bit_int_eq_self)
      then have "bit ?b n = bit (take_bit 8 ?b) n" by simp
      with False show ?thesis by (simp add: bit_take_bit_iff)
    qed
  qed
  then show ?thesis by (simp add: headerCiphertextLength_def push_bit_eq_mult)
qed

lemma headerCiphertextLength_nonneg: "0 \<le> headerCiphertextLength hp"
  using byte_operand_bounds [of hp 0] byte_operand_bounds [of hp 1]
  by (simp add: headerCiphertextLength_eq)

lemma headerCiphertextLength_big_endian:
  "2 \<le> length hp \<Longrightarrow> headerCiphertextLength hp = 256 * uint (hp ! 0) + uint (hp ! 1)"
proof -
  assume "2 \<le> length hp"
  then have "0 < length hp" "1 < length hp" by linarith+
  then have "js_index hp 0 = Some (hp ! 0)" "js_index hp 1 = Some (hp ! 1)"
    unfolding js_index_def by simp_all
  then show ?thesis by (simp add: headerCiphertextLength_eq byte_operand_def)
qed

lemma decryptNote_try_after_key_agreement:
  assumes "Fr_fromBuffer fenv (take 32 (drop 32 elog)) = Some ephPkX"
    and "Point_fromXAndSign cenv ephPkX (js_index (restBytesOf elog) 0 \<noteq> Some 0) = Some ephPk"
    and "getPreaddress cenv ca = Some pre"
    and "computeAddressSecret cenv pre sk = Some sec"
    and "deriveEcdhSharedSecret cenv sec ephPk = Some shared"
  shows "decryptNote_try fenv cenv elog ca sk =
     (case decryptBufferCBC cenv (take 16 (drop 1 (restBytesOf elog)))
             (headerIv (deriveAesKeys fenv cenv shared)) (headerKey (deriveAesKeys fenv cenv shared)) of
        None \<Rightarrow> Inl PrimitiveThrew
      | Some hp \<Rightarrow>
          (case decryptBufferCBC cenv
                  (take (min (nat (headerCiphertextLength hp)) (length (restBytesOf elog) - 17))
                     (drop 17 (restBytesOf elog)))
                  (bodyIv (deriveAesKeys fenv cenv shared)) (bodyKey (deriveAesKeys fenv cenv shared)) of
             None \<Rightarrow> Inl PrimitiveThrew
           | Some bp \<Rightarrow>
               (case bodyToFields fenv bp 0 [] of
                  Inl e \<Rightarrow> Inl e
                | Inr fs \<Rightarrow> Inr (Some fs))))"
  using assms
  by (simp add: decryptNote_try_def Let_def reconstructPublicKey_def restBytesOf_eq
      bodyCiphertextOf_eq headerCiphertextLength_nonneg split: option.splits)

lemma decryptNote_SomeD:
  assumes "decryptNote fenv cenv elog ca sk = Inr (Some fs)"
  shows "\<exists>ephPkX ephPk pre sec shared hp bp.
      Fr_fromBuffer fenv (take 32 (drop 32 elog)) = Some ephPkX
    \<and> Point_fromXAndSign cenv ephPkX (js_index (restBytesOf elog) 0 \<noteq> Some 0) = Some ephPk
    \<and> getPreaddress cenv ca = Some pre
    \<and> computeAddressSecret cenv pre sk = Some sec
    \<and> deriveEcdhSharedSecret cenv sec ephPk = Some shared
    \<and> decryptBufferCBC cenv (take 16 (drop 1 (restBytesOf elog)))
         (headerIv (deriveAesKeys fenv cenv shared)) (headerKey (deriveAesKeys fenv cenv shared)) = Some hp
    \<and> decryptBufferCBC cenv
         (take (min (nat (headerCiphertextLength hp)) (length (restBytesOf elog) - 17))
            (drop 17 (restBytesOf elog)))
         (bodyIv (deriveAesKeys fenv cenv shared)) (bodyKey (deriveAesKeys fenv cenv shared)) = Some bp
    \<and> bodyToFields fenv bp 0 [] = Inr fs"
proof -
  from assms have t: "decryptNote_try fenv cenv elog ca sk = Inr (Some fs)"
    by (simp add: decryptNote_def split: sum.splits)
  then obtain ephPkX where x: "Fr_fromBuffer fenv (take 32 (drop 32 elog)) = Some ephPkX"
    by (auto simp: decryptNote_try_def Let_def split: option.splits)
  from t x obtain ephPk where
    p: "Point_fromXAndSign cenv ephPkX (js_index (restBytesOf elog) 0 \<noteq> Some 0) = Some ephPk"
    by (auto simp: decryptNote_try_def Let_def reconstructPublicKey_def restBytesOf_eq
        split: option.splits)
  from t x p obtain pre where pre: "getPreaddress cenv ca = Some pre"
    by (auto simp: decryptNote_try_def Let_def reconstructPublicKey_def restBytesOf_eq
        split: option.splits)
  from t x p pre obtain sec where sec: "computeAddressSecret cenv pre sk = Some sec"
    by (auto simp: decryptNote_try_def Let_def reconstructPublicKey_def restBytesOf_eq
        split: option.splits)
  from t x p pre sec obtain shared where sh: "deriveEcdhSharedSecret cenv sec ephPk = Some shared"
    by (auto simp: decryptNote_try_def Let_def reconstructPublicKey_def restBytesOf_eq
        split: option.splits)
  from t decryptNote_try_after_key_agreement [OF x p pre sec sh] x p pre sec sh
  show ?thesis
    by (auto split: option.splits sum.splits)
qed

lemma bodyToFields_chunks:
  "bodyToFields fenv body i acc = Inr fs \<Longrightarrow> i = 32 * j \<Longrightarrow>
     \<exists>rest. fs = acc @ rest \<and> length rest = length body div 32 - j
       \<and> (\<forall>k<length rest. Fr_fromBuffer fenv (take 32 (drop (32 * (j + k)) body)) = Some (rest ! k))"
proof (induction fenv body i acc arbitrary: j rule: bodyToFields.induct)
  case (1 fenv body i acc)
  show ?case
  proof (cases "i < length body")
    case False
    with "1.prems"(1) have "fs = acc"
      by (simp add: bodyToFields.simps [of fenv body i acc])
    moreover from False "1.prems" have "length body div 32 - j = 0" by simp
    ultimately show ?thesis by simp
  next
    case True
    show ?thesis
    proof (cases "i + 32 \<le> length body")
      case full: True
      have sl: "js_slice body (int i) (int i + 32) = take 32 (drop i body)"
        using js_slice_nat [of body i "i + 32"] by simp
      from "1.prems"(1) True full obtain f where
        f: "Fr_fromBuffer fenv (take 32 (drop i body)) = Some f" and
        rec: "bodyToFields fenv body (i + 32) (acc @ [f]) = Inr fs"
        by (auto simp: bodyToFields.simps [of fenv body i acc] sl split: option.splits)
      from f have f': "Fr_fromBuffer fenv (js_slice body (int i) (int i + 32)) = Some f"
        by (simp add: sl)
      from "1.prems" have "i + 32 = 32 * Suc j" by simp
      from "1.IH"(1) [OF True full f' rec this] obtain rest where
        rest: "fs = (acc @ [f]) @ rest" "length rest = length body div 32 - Suc j"
          "\<forall>k<length rest. Fr_fromBuffer fenv (take 32 (drop (32 * (Suc j + k)) body)) = Some (rest ! k)"
        by blast
      from full "1.prems" have "Suc j \<le> length body div 32" by simp
      with rest(2) have len: "length (f # rest) = length body div 32 - j" by simp
      have "\<forall>k<length (f # rest). Fr_fromBuffer fenv (take 32 (drop (32 * (j + k)) body)) = Some ((f # rest) ! k)"
      proof (intro allI impI)
        fix k assume k: "k < length (f # rest)"
        show "Fr_fromBuffer fenv (take 32 (drop (32 * (j + k)) body)) = Some ((f # rest) ! k)"
        proof (cases k)
          case 0
          with f "1.prems" show ?thesis by simp
        next
          case (Suc k')
          with k rest(3) show ?thesis by simp
        qed
      qed
      with rest(1) len show ?thesis by (intro exI [of _ "f # rest"]) simp
    next
      case short: False
      from "1.prems"(1) True short have rec: "bodyToFields fenv body (i + 32) acc = Inr fs"
        by (simp add: bodyToFields.simps [of fenv body i acc])
      from "1.prems" have "i + 32 = 32 * Suc j" by simp
      from "1.IH"(2) [OF True short rec this] obtain rest where
        rest: "fs = acc @ rest" "length rest = length body div 32 - Suc j"
        by blast
      from True short "1.prems" have "length body div 32 = j" by simp
      with rest show ?thesis by simp
    qed
  qed
qed

subsection \<open>Evaluation in the small environment\<close>

lemma upt_0_2: "[0..<2] = [0, Suc 0]"
  by (simp add: numeral_2_eq_2)

lemma toy_rest:
  "restBytesOf toy_log = [1, 0, 33] @ replicate 14 0 @ replicate 14 1 @ replicate 31 1"
  by (simp add: restBytesOf_eq unpackFieldsToBytes_def toy_log_def Let_def upt_0_2)

lemma toy_ephX: "take 32 (drop 32 toy_log) = replicate 31 0 @ [1]"
  by (simp add: toy_log_def)

lemma toy_header: "headerCiphertextLength (0 # 33 # replicate 14 0) = 33"
  by (simp add: headerCiphertextLength_def byte_operand_def js_index_def)

lemma toy_body: "bodyToFields toy_fenv (replicate 14 1 @ replicate 19 1) 0 [] = Inr [32]"
  by (simp add: bodyToFields.simps sum_list_replicate)

lemma toy_decrypt: "decryptNote toy_fenv toy_cenv toy_log 3 4 = Inr (Some [32])"
  by (simp add: decryptNote_def decryptNote_try_def Let_def toy_rest [unfolded restBytesOf_eq]
      toy_ephX toy_header reconstructPublicKey_def js_index_def bodyCiphertextOf_def toy_body)

lemma toy_decrypt_truncated:
  "decryptNote_try toy_fenv toy_cenv (take 64 toy_log) 3 4 = Inl PrimitiveThrew"
  by (simp add: decryptNote_try_def Let_def toy_log_def unpackFieldsToBytes_def
      reconstructPublicKey_def js_index_def)

subsection \<open>Step 7: the body as field elements\<close>

text \<open>
  Claim C3 fails as worded: a body of 33 bytes comes back as one field element, not as
  \<open>\<lceil>33 / 32\<rceil> = 2\<close>; the one trailing byte is dropped, not zero-padded.
\<close>

theorem short_final_chunk_is_dropped:
  "decryptBufferCBC toy_cenv
      (take (min (nat 33) (length (restBytesOf toy_log) - 17)) (drop 17 (restBytesOf toy_log)))
      (bodyIv (deriveAesKeys toy_fenv toy_cenv 7)) (bodyKey (deriveAesKeys toy_fenv toy_cenv 7))
     = Some (replicate 33 1)
   \<and> bodyToFields toy_fenv (replicate 33 1) 0 [] = Inr [32]
   \<and> decryptNote toy_fenv toy_cenv toy_log 3 4 = Inr (Some [32])
   \<and> length [32 :: nat] \<noteq> (33 + 31) div 32"
proof -
  have r: "replicate 14 1 @ replicate 19 1 = replicate 33 (1::byte)"
    by (simp flip: replicate_add)
  show ?thesis
    using toy_body toy_decrypt by (simp add: toy_rest r)
qed

text \<open>
  Claim C3, as the code has it. When \<open>decryptNote\<close> returns a sequence, the steps before
  have returned and the sequence is the re-chunking of the decrypted body, that is of
  the result \<open>bp\<close> of the body cipher call: it has \<open>\<lfloor>length bp / 32\<rfloor>\<close> field elements, and
  the \<open>k\<close>-th is the conversion of the bytes \<open>32k .. 32k + 31\<close> of \<open>bp\<close>. A final chunk of
  fewer than 32 bytes contributes nothing.
\<close>

theorem decryptNote_keeps_complete_chunks:
  assumes "decryptNote fenv cenv elog ca sk = Inr (Some fs)"
  shows "\<exists>ephPkX ephPk pre sec shared hp bp.
            Fr_fromBuffer fenv (take 32 (drop 32 elog)) = Some ephPkX
          \<and> Point_fromXAndSign cenv ephPkX (js_index (restBytesOf elog) 0 \<noteq> Some 0) = Some ephPk
          \<and> getPreaddress cenv ca = Some pre
          \<and> computeAddressSecret cenv pre sk = Some sec
          \<and> deriveEcdhSharedSecret cenv sec ephPk = Some shared
          \<and> decryptBufferCBC cenv (take 16 (drop 1 (restBytesOf elog)))
               (headerIv (deriveAesKeys fenv cenv shared))
               (headerKey (deriveAesKeys fenv cenv shared)) = Some hp
          \<and> decryptBufferCBC cenv
               (take (min (nat (headerCiphertextLength hp)) (length (restBytesOf elog) - 17))
                  (drop 17 (restBytesOf elog)))
               (bodyIv (deriveAesKeys fenv cenv shared))
               (bodyKey (deriveAesKeys fenv cenv shared)) = Some bp
          \<and> length fs = length bp div 32
          \<and> (\<forall>k<length fs. Fr_fromBuffer fenv (take 32 (drop (32 * k) bp)) = Some (fs ! k))"
proof -
  from decryptNote_SomeD [OF assms] obtain ephPkX ephPk pre sec shared hp bp where
    steps: "Fr_fromBuffer fenv (take 32 (drop 32 elog)) = Some ephPkX"
      "Point_fromXAndSign cenv ephPkX (js_index (restBytesOf elog) 0 \<noteq> Some 0) = Some ephPk"
      "getPreaddress cenv ca = Some pre"
      "computeAddressSecret cenv pre sk = Some sec"
      "deriveEcdhSharedSecret cenv sec ephPk = Some shared"
      "decryptBufferCBC cenv (take 16 (drop 1 (restBytesOf elog)))
         (headerIv (deriveAesKeys fenv cenv shared))
         (headerKey (deriveAesKeys fenv cenv shared)) = Some hp"
      "decryptBufferCBC cenv
         (take (min (nat (headerCiphertextLength hp)) (length (restBytesOf elog) - 17))
            (drop 17 (restBytesOf elog)))
         (bodyIv (deriveAesKeys fenv cenv shared))
         (bodyKey (deriveAesKeys fenv cenv shared)) = Some bp"
    and b: "bodyToFields fenv bp 0 [] = Inr fs"
    by blast
  from bodyToFields_chunks [OF b, of 0] have
    "length fs = length bp div 32"
    "\<forall>k<length fs. Fr_fromBuffer fenv (take 32 (drop (32 * k) bp)) = Some (fs ! k)"
    by auto
  with steps show ?thesis by blast
qed

theorem decryptNote_keeps_complete_chunks_witness:
  "decryptNote toy_fenv toy_cenv toy_log 3 4 = Inr (Some [32])
   \<and> decryptBufferCBC toy_cenv
        (take (min (nat (headerCiphertextLength (0 # 33 # replicate 14 0)))
                 (length (restBytesOf toy_log) - 17))
           (drop 17 (restBytesOf toy_log)))
        (bodyIv (deriveAesKeys toy_fenv toy_cenv 7))
        (bodyKey (deriveAesKeys toy_fenv toy_cenv 7)) = Some (replicate 33 1)
   \<and> length [32 :: nat] = length (replicate 33 (1 :: byte)) div 32
   \<and> Fr_fromBuffer toy_fenv (take 32 (drop (32 * 0) (replicate 33 1))) = Some 32"
proof -
  from decryptNote_keeps_complete_chunks [OF toy_decrypt]
  obtain ephPkX ephPk pre sec shared hp bp where
    x: "Fr_fromBuffer toy_fenv (take 32 (drop 32 toy_log)) = Some ephPkX" and
    p: "Point_fromXAndSign toy_cenv ephPkX (js_index (restBytesOf toy_log) 0 \<noteq> Some 0) = Some ephPk" and
    pre: "getPreaddress toy_cenv 3 = Some pre" and
    sec: "computeAddressSecret toy_cenv pre 4 = Some sec" and
    sh: "deriveEcdhSharedSecret toy_cenv sec ephPk = Some shared" and
    h: "decryptBufferCBC toy_cenv (take 16 (drop 1 (restBytesOf toy_log)))
          (headerIv (deriveAesKeys toy_fenv toy_cenv shared))
          (headerKey (deriveAesKeys toy_fenv toy_cenv shared)) = Some hp" and
    b: "decryptBufferCBC toy_cenv
          (take (min (nat (headerCiphertextLength hp)) (length (restBytesOf toy_log) - 17))
             (drop 17 (restBytesOf toy_log)))
          (bodyIv (deriveAesKeys toy_fenv toy_cenv shared))
          (bodyKey (deriveAesKeys toy_fenv toy_cenv shared)) = Some bp" and
    l: "length [32 :: nat] = length bp div 32" and
    c: "\<forall>k<length [32 :: nat]. Fr_fromBuffer toy_fenv (take 32 (drop (32 * k) bp)) = Some ([32] ! k)"
    by blast
  have r: "replicate 14 1 @ replicate 19 1 = replicate 33 (1::byte)"
    by (simp flip: replicate_add)
  from x have "ephPkX = 1" by (auto simp: toy_ephX sum_list_replicate)
  with p pre sec sh have "shared = 7" by auto
  moreover from h have "hp = 0 # 33 # replicate 14 0" by (simp add: toy_rest)
  ultimately have "bp = replicate 33 1"
    using b by (simp add: toy_rest toy_header r)
  with b l c \<open>shared = 7\<close> \<open>hp = 0 # 33 # replicate 14 0\<close> toy_decrypt show ?thesis
    by simp
qed

subsection \<open>Failure policy\<close>

text \<open>
  Claim C5. \<open>decryptNote\<close> never raises: every exception inside the \<open>try\<close> block becomes
  the result \<open>null\<close>. It returns a sequence only if the conversion of the x-coordinate,
  the point reconstruction, the key agreement, both cipher calls and the re-chunking
  all returned; so the failure of any step gives \<open>null\<close>.
\<close>

theorem decryptNote_never_throws:
  "decryptNote fenv cenv elog ca sk \<noteq> Inl e
   \<and> (decryptNote_try fenv cenv elog ca sk = Inl e \<longrightarrow>
        decryptNote fenv cenv elog ca sk = Inr None)
   \<and> (decryptNote fenv cenv elog ca sk = Inr (Some fs) \<longrightarrow>
        (\<exists>ephPkX ephPk pre sec shared hp bp.
            Fr_fromBuffer fenv (take 32 (drop 32 elog)) = Some ephPkX
          \<and> Point_fromXAndSign cenv ephPkX (js_index (restBytesOf elog) 0 \<noteq> Some 0) = Some ephPk
          \<and> getPreaddress cenv ca = Some pre
          \<and> computeAddressSecret cenv pre sk = Some sec
          \<and> deriveEcdhSharedSecret cenv sec ephPk = Some shared
          \<and> decryptBufferCBC cenv (take 16 (drop 1 (restBytesOf elog)))
               (headerIv (deriveAesKeys fenv cenv shared))
               (headerKey (deriveAesKeys fenv cenv shared)) = Some hp
          \<and> decryptBufferCBC cenv
               (take (min (nat (headerCiphertextLength hp)) (length (restBytesOf elog) - 17))
                  (drop 17 (restBytesOf elog)))
               (bodyIv (deriveAesKeys fenv cenv shared))
               (bodyKey (deriveAesKeys fenv cenv shared)) = Some bp
          \<and> bodyToFields fenv bp 0 [] = Inr fs))"
proof (intro conjI impI)
  show "decryptNote fenv cenv elog ca sk \<noteq> Inl e"
    by (simp add: decryptNote_def split: sum.splits)
next
  assume "decryptNote_try fenv cenv elog ca sk = Inl e"
  then show "decryptNote fenv cenv elog ca sk = Inr None"
    by (simp add: decryptNote_def)
next
  assume "decryptNote fenv cenv elog ca sk = Inr (Some fs)"
  then show "\<exists>ephPkX ephPk pre sec shared hp bp.
            Fr_fromBuffer fenv (take 32 (drop 32 elog)) = Some ephPkX
          \<and> Point_fromXAndSign cenv ephPkX (js_index (restBytesOf elog) 0 \<noteq> Some 0) = Some ephPk
          \<and> getPreaddress cenv ca = Some pre
          \<and> computeAddressSecret cenv pre sk = Some sec
          \<and> deriveEcdhSharedSecret cenv sec ephPk = Some shared
          \<and> decryptBufferCBC cenv (take 16 (drop 1 (restBytesOf elog)))
               (headerIv (deriveAesKeys fenv cenv shared))
               (headerKey (deriveAesKeys fenv cenv shared)) = Some hp
          \<and> decryptBufferCBC cenv
               (take (min (nat (headerCiphertextLength hp)) (length (restBytesOf elog) - 17))
                  (drop 17 (restBytesOf elog)))
               (bodyIv (deriveAesKeys fenv cenv shared))
               (bodyKey (deriveAesKeys fenv cenv shared)) = Some bp
          \<and> bodyToFields fenv bp 0 [] = Inr fs"
    by (rule decryptNote_SomeD)
qed

theorem decryptNote_never_throws_witness:
  "decryptNote_try toy_fenv toy_cenv (take 64 toy_log) 3 4 = Inl PrimitiveThrew
   \<and> decryptNote toy_fenv toy_cenv (take 64 toy_log) 3 4 = Inr None
   \<and> decryptNote toy_fenv toy_cenv toy_log 3 4 = Inr (Some [32])
   \<and> (\<exists>bp. bodyToFields toy_fenv bp 0 [] = Inr [32])"
proof -
  from decryptNote_never_throws [of toy_fenv toy_cenv "take 64 toy_log" 3 4 PrimitiveThrew]
    toy_decrypt_truncated
  have a: "decryptNote toy_fenv toy_cenv (take 64 toy_log) 3 4 = Inr None" by blast
  from decryptNote_never_throws [of toy_fenv toy_cenv toy_log 3 4 _ "[32]"] toy_decrypt
  have b: "\<exists>bp. bodyToFields toy_fenv bp 0 [] = Inr [32]" by blast
  from a b toy_decrypt toy_decrypt_truncated show ?thesis by blast
qed

subsection \<open>Header and body ranges\<close>

text \<open>
  Claim C6. Once the shared secret is derived, \<open>decryptNote\<close> decrypts the bytes 1 to 16
  of the unpacked remainder (16 bytes whenever the remainder has at least 17) as the
  header, reads the declared length as the big-endian value of the first two bytes of
  the result, and decrypts as the body exactly \<open>min(declaredLength, bytesAvailable)\<close>
  bytes from offset 17, where \<open>bytesAvailable\<close> is the number of unpacked bytes from
  offset 17 on.
\<close>

theorem decryptNote_header_and_body_bytes:
  assumes "Fr_fromBuffer fenv (take 32 (drop 32 elog)) = Some ephPkX"
    and "rb = restBytesOf elog"
    and "Point_fromXAndSign cenv ephPkX (js_index rb 0 \<noteq> Some 0) = Some ephPk"
    and "getPreaddress cenv ca = Some pre"
    and "computeAddressSecret cenv pre sk = Some sec"
    and "deriveEcdhSharedSecret cenv sec ephPk = Some shared"
    and "keys = deriveAesKeys fenv cenv shared"
  shows "decryptNote fenv cenv elog ca sk =
      (case decryptBufferCBC cenv (take 16 (drop 1 rb)) (headerIv keys) (headerKey keys) of
         None \<Rightarrow> Inr None
       | Some hp \<Rightarrow>
           (case decryptBufferCBC cenv
                   (take (min (nat (headerCiphertextLength hp)) (length (drop 17 rb))) (drop 17 rb))
                   (bodyIv keys) (bodyKey keys) of
              None \<Rightarrow> Inr None
            | Some bp \<Rightarrow>
                (case bodyToFields fenv bp 0 [] of
                   Inl e \<Rightarrow> Inr None
                 | Inr fs \<Rightarrow> Inr (Some fs))))
    \<and> (2 \<le> length headerPlaintext \<longrightarrow>
         headerCiphertextLength headerPlaintext =
           256 * uint (headerPlaintext ! 0) + uint (headerPlaintext ! 1))
    \<and> length (take (min (nat (headerCiphertextLength headerPlaintext)) (length (drop 17 rb)))
                (drop 17 rb))
        = min (nat (headerCiphertextLength headerPlaintext)) (length rb - 17)
    \<and> (17 \<le> length rb \<longrightarrow> length (take 16 (drop 1 rb)) = 16)"
proof -
  have "decryptNote fenv cenv elog ca sk =
      (case decryptBufferCBC cenv (take 16 (drop 1 rb)) (headerIv keys) (headerKey keys) of
         None \<Rightarrow> Inr None
       | Some hp \<Rightarrow>
           (case decryptBufferCBC cenv
                   (take (min (nat (headerCiphertextLength hp)) (length (drop 17 rb))) (drop 17 rb))
                   (bodyIv keys) (bodyKey keys) of
              None \<Rightarrow> Inr None
            | Some bp \<Rightarrow>
                (case bodyToFields fenv bp 0 [] of
                   Inl e \<Rightarrow> Inr None
                 | Inr fs \<Rightarrow> Inr (Some fs))))"
    unfolding decryptNote_def
      decryptNote_try_after_key_agreement
        [OF assms(1) assms(3) [unfolded assms(2)] assms(4) assms(5) assms(6)]
      assms(2) assms(7)
    by (simp split: option.splits sum.splits)
  then show ?thesis
    by (simp add: headerCiphertextLength_big_endian)
qed

theorem decryptNote_header_and_body_bytes_witness:
  "Fr_fromBuffer toy_fenv (take 32 (drop 32 toy_log)) = Some 1
   \<and> Point_fromXAndSign toy_cenv 1 (js_index (restBytesOf toy_log) 0 \<noteq> Some 0) = Some 1
   \<and> getPreaddress toy_cenv 3 = Some 3
   \<and> computeAddressSecret toy_cenv 3 4 = Some 7
   \<and> deriveEcdhSharedSecret toy_cenv 7 1 = Some 7
   \<and> take 16 (drop 1 (restBytesOf toy_log)) = 0 # 33 # replicate 14 0
   \<and> headerCiphertextLength (0 # 33 # replicate 14 0) = 256 * 0 + 33
   \<and> min (nat 33) (length (restBytesOf toy_log) - 17) = 33
   \<and> decryptNote toy_fenv toy_cenv toy_log 3 4 = Inr (Some [32])"
proof -
  have h1: "Fr_fromBuffer toy_fenv (take 32 (drop 32 toy_log)) = Some 1"
    by (simp add: toy_ephX)
  have h2: "Point_fromXAndSign toy_cenv 1 (js_index (restBytesOf toy_log) 0 \<noteq> Some 0) = Some 1"
    by simp
  have h3: "getPreaddress toy_cenv 3 = Some 3" by simp
  have h4: "computeAddressSecret toy_cenv 3 4 = Some 7" by simp
  have h5: "deriveEcdhSharedSecret toy_cenv 7 1 = Some 7" by simp
  from decryptNote_header_and_body_bytes
         [OF h1 refl h2 h3 h4 h5 refl, of "0 # 33 # replicate 14 0"]
  show ?thesis
    using h1 h2 h3 h4 h5 toy_header toy_body by (simp add: toy_rest)
qed

subsection \<open>\<open>parseNotePlaintext\<close>\<close>

lemma parse_bits:
  "drop_bit 64 (v::int) = v div 2 ^ 64" "v AND (push_bit 64 1 - 1) = v mod 2 ^ 64"
proof -
  show "drop_bit 64 v = v div 2 ^ 64" by (rule drop_bit_eq_div)
  have "v AND (push_bit 64 1 - 1) = v AND mask 64"
    by (simp add: mask_eq_exp_minus_1 push_bit_of_1)
  also have "\<dots> = take_bit 64 v" by (simp add: take_bit_eq_mask)
  also have "\<dots> = v mod 2 ^ 64" by (rule take_bit_eq_mod)
  finally show "v AND (push_bit 64 1 - 1) = v mod 2 ^ 64" .
qed

lemma parse_bits_numeral:
  "drop_bit 64 (v::int) = v div 18446744073709551616"
  "v AND 18446744073709551615 = v mod 18446744073709551616"
  using parse_bits [of v] by simp_all

text \<open>
  Claim C7 fails as worded: with four fields of which the first holds a value not below
  the modulus, \<open>parseNotePlaintext\<close> neither returns \<open>null\<close> nor returns a note; the
  exception of \<open>toBigInt\<close> leaves it.
\<close>

theorem parseNotePlaintext_throws_on_noncanonical_field:
  "\<not> length [2 ^ 254, 11, 12, 13 :: nat] < 4
   \<and> Fr_toBigInt toy_fenv (2 ^ 254) = None
   \<and> parseNotePlaintext toy_fenv Suc [2 ^ 254, 11, 12, 13] = Inl PrimitiveThrew"
  by (simp add: parseNotePlaintext_def)

text \<open>
  Claim C7, as the code has it. \<open>parseNotePlaintext\<close> returns \<open>null\<close> exactly for fewer
  than 4 fields. With at least 4 fields and a field 0 whose \<open>toBigInt\<close> returns \<open>v\<close>, it
  returns the note with \<open>msgTypeId\<close> equal to \<open>v\<close> shifted right by 64 bits and
  \<open>noteTypeId\<close> equal to the lower 64 bits of \<open>v\<close> (the upper and the lower half of a
  128-bit metadata word), \<open>owner\<close> from field 1, \<open>storageSlot\<close> field 2, \<open>randomness\<close>
  field 3 and \<open>packedNote\<close> the fields from index 4 on, none when there are exactly 4
  fields. With at least 4 fields and a field 0 whose \<open>toBigInt\<close> throws, it throws.
\<close>

theorem parseNotePlaintext_layout:
  "(parseNotePlaintext fenv fromField plaintext = Inr None \<longleftrightarrow> length plaintext < 4)
   \<and> (4 \<le> length plaintext \<and> Fr_toBigInt fenv (plaintext ! 0) = Some v \<longrightarrow>
        (\<exists>p. parseNotePlaintext fenv fromField plaintext = Inr (Some p)
           \<and> msgTypeId p = v div 2 ^ 64
           \<and> noteTypeId p = v mod 2 ^ 64
           \<and> v = msgTypeId p * 2 ^ 64 + noteTypeId p
           \<and> owner p = fromField (plaintext ! 1)
           \<and> storageSlot p = plaintext ! 2
           \<and> randomness p = plaintext ! 3
           \<and> packedNote p = drop 4 plaintext
           \<and> (length plaintext = 4 \<longrightarrow> packedNote p = [])))
   \<and> (4 \<le> length plaintext \<and> Fr_toBigInt fenv (plaintext ! 0) = None \<longrightarrow>
        parseNotePlaintext fenv fromField plaintext = Inl PrimitiveThrew)"
  using js_slice_from_nat [of plaintext 4]
  by (auto simp: parseNotePlaintext_def parse_bits_numeral split: option.splits)

theorem parseNotePlaintext_layout_witness:
  "(4::nat) \<le> length [7 * 2 ^ 64 + 9, 11, 12, 13, 14 :: nat]
   \<and> Fr_toBigInt toy_fenv (7 * 2 ^ 64 + 9) = Some (7 * 2 ^ 64 + 9)
   \<and> parseNotePlaintext toy_fenv Suc [7 * 2 ^ 64 + 9, 11, 12, 13, 14]
       = Inr (Some \<lparr>msgTypeId = 7, noteTypeId = 9, owner = 12, storageSlot = 12,
                    randomness = 13, packedNote = [14]\<rparr>)
   \<and> parseNotePlaintext toy_fenv Suc [1, 2, 3] = Inr None
   \<and> Fr_toBigInt toy_fenv (2 ^ 254) = None
   \<and> parseNotePlaintext toy_fenv Suc [2 ^ 254, 11, 12, 13] = Inl PrimitiveThrew"
  using parseNotePlaintext_layout
          [of toy_fenv Suc "[7 * 2 ^ 64 + 9, 11, 12, 13, 14]" "7 * 2 ^ 64 + 9"]
    parseNotePlaintext_layout [of toy_fenv Suc "[1, 2, 3]" 0]
    parseNotePlaintext_layout [of toy_fenv Suc "[2 ^ 254, 11, 12, 13]" 0]
  by (simp add: parseNotePlaintext_def parse_bits_numeral js_slice_from_def js_slice_def Let_def)

section \<open>Properties of the proof tree\<close>

subsection \<open>One combination\<close>

lemma precompute_Inr:
  "precomputeSummaryVkHash fenv benv st sample vk vh = Inr (u, st1) \<Longrightarrow>
     \<exists>a h. st1 = st\<lparr>summaryVkAsFields := Some a, summaryVkHash := Some h\<rparr>"
  by (auto simp: precomputeSummaryVkHash_def Let_def split: option.splits if_splits prod.splits)

lemma precompute_Inl:
  "precomputeSummaryVkHash fenv benv st sample vk vh = Inl (e, st1) \<Longrightarrow>
     e \<noteq> MissingSummaryKey \<and> st1 = st"
  by (auto simp: precomputeSummaryVkHash_def Let_def split: option.splits if_splits prod.splits)

lemma combineProofs_Inr:
  assumes "combineProofs fenv benv st left right level = Inr (c, st')"
  shows "pa_value c = pa_value left + (case right of Some r \<Rightarrow> pa_value r | None \<Rightarrow> 0)"
    and "summaryVkAsFields st' \<noteq> None"
    and "level \<noteq> 0 \<longrightarrow> summaryVkAsFields st \<noteq> None"
  using assms
  by (auto simp: combineProofs_def Let_def
      split: option.splits if_splits prod.splits sum.splits dest!: precompute_Inr)

lemma combineProofs_bootstrap:
  assumes "combineProofs fenv benv st left right 0 = Inr (c, st')"
    and "\<not> js_truthy (summaryVkHash st)"
  shows "\<exists>st1. precomputeSummaryVkHash fenv benv st left (leafVkAsFields st) (leafVkHash st)
                 = Inr ((), st1)
             \<and> summaryVkAsFields st1 \<noteq> None"
proof -
  from assms obtain st1 where
    p: "precomputeSummaryVkHash fenv benv st left (leafVkAsFields st) (leafVkHash st) = Inr ((), st1)"
    by (auto simp: combineProofs_def Let_def split: option.splits if_splits prod.splits sum.splits)
  from precompute_Inr [OF p] have "summaryVkAsFields st1 \<noteq> None" by auto
  with p show ?thesis by blast
qed

lemma combineProofs_Inl:
  assumes "combineProofs fenv benv st left right level = Inl (e, st')"
  shows "e = MissingSummaryKey \<longrightarrow> level \<noteq> 0 \<and> summaryVkAsFields st = None"
    and "summaryVkAsFields st \<noteq> None \<longrightarrow> summaryVkAsFields st' \<noteq> None"
  using assms
  by (auto simp: combineProofs_def Let_def
      split: option.splits if_splits prod.splits sum.splits dest!: precompute_Inr precompute_Inl)


lemma combine_level_unfold:
  "i < length cur \<Longrightarrow>
   combine_level fenv benv st cur level i acc =
     (case combineProofs fenv benv st (cur ! i)
             (if i + 1 < length cur then Some (cur ! (i + 1)) else None) level of
        Inl es \<Rightarrow> Inl es
      | Inr (combined, st') \<Rightarrow> combine_level fenv benv st' cur level (i + 2) (acc @ [combined]))"
  "\<not> i < length cur \<Longrightarrow> combine_level fenv benv st cur level i acc = Inr (acc, st)"
  by (subst combine_level.simps, simp add: Let_def)+



lemma combine_level_keyed:
  "combine_level fenv benv st cur level i acc = Inr (nxt, st') \<Longrightarrow>
     i < length cur \<or> summaryVkAsFields st \<noteq> None \<Longrightarrow> summaryVkAsFields st' \<noteq> None"
proof (induction fenv benv st cur level i acc rule: combine_level.induct)
  case (1 fenv benv st cur level i acc)
  show ?case
  proof (cases "i < length cur")
    case False
    with "1.prems" show ?thesis by (simp add: combine_level_unfold)
  next
    case True
    let ?right = "if i + 1 < length cur then Some (cur ! (i + 1)) else None"
    from True "1.prems" obtain c st1 where
      c: "combineProofs fenv benv st (cur ! i) ?right level = Inr (c, st1)" and
      rec: "combine_level fenv benv st1 cur level (i + 2) (acc @ [c]) = Inr (nxt, st')"
      by (auto simp: combine_level_unfold split: sum.splits)
    from combineProofs_Inr(2) [OF c]
    have "i + 2 < length cur \<or> summaryVkAsFields st1 \<noteq> None" by simp
    then show ?thesis by (rule "1.IH" [OF True refl refl c refl rec])
  qed
qed

lemma combine_level_no_missing_key:
  "level = 0 \<or> summaryVkAsFields st \<noteq> None \<Longrightarrow>
     combine_level fenv benv st cur level i acc \<noteq> Inl (MissingSummaryKey, s)"
proof (induction fenv benv st cur level i acc rule: combine_level.induct)
  case (1 fenv benv st cur level i acc)
  show ?case
  proof (cases "i < length cur")
    case False
    then show ?thesis by (simp add: combine_level_unfold)
  next
    case True
    let ?right = "if i + 1 < length cur then Some (cur ! (i + 1)) else None"
    show ?thesis
    proof (cases "combineProofs fenv benv st (cur ! i) ?right level")
      case (Inl es)
      obtain e s' where es: "es = (e, s')" by (cases es)
      from combineProofs_Inl(1) [OF Inl [unfolded es]] "1.prems" have "e \<noteq> MissingSummaryKey"
        by auto
      with True Inl es show ?thesis by (simp add: combine_level_unfold)
    next
      case (Inr cs)
      obtain c st1 where cs: "cs = (c, st1)" by (cases cs)
      from combineProofs_Inr(2) [OF Inr [unfolded cs]]
      have "level = 0 \<or> summaryVkAsFields st1 \<noteq> None" by simp
      from "1.IH" [OF True refl refl Inr [unfolded cs] refl this] True Inr cs
      show ?thesis by (simp add: combine_level_unfold)
    qed
  qed
qed

lemma called_in_level_keyed:
  "called_in_level fenv benv st cur level i call \<Longrightarrow>
     snd call = level \<and> (summaryVkAsFields st \<noteq> None \<longrightarrow> summaryVkAsFields (fst call) \<noteq> None)"
proof (induction rule: called_in_level.induct)
  case (call_here i currentLevel st level)
  show ?case by simp
next
  case (call_later i currentLevel st level combined st' call)
  from combineProofs_Inr(2) [OF call_later.hyps(2)] call_later.IH show ?case by simp
qed

lemma buildTree_loop_unfold:
  "1 < length cur \<Longrightarrow>
   buildTree_loop fenv benv st cur level =
     (case combine_level fenv benv st cur level 0 [] of
        Inl es \<Rightarrow> Inl es
      | Inr (nextLevel, st') \<Rightarrow> buildTree_loop fenv benv st' nextLevel (level + 1))"
  "\<not> 1 < length cur \<Longrightarrow> buildTree_loop fenv benv st cur level = Inr (cur, st)"
  by (subst buildTree_loop.simps, simp)+


lemma buildTree_loop_no_missing_key:
  "level = 0 \<or> summaryVkAsFields st \<noteq> None \<Longrightarrow>
     buildTree_loop fenv benv st cur level \<noteq> Inl (MissingSummaryKey, s)"
proof (induction fenv benv st cur level rule: buildTree_loop.induct)
  case (1 fenv benv st cur level)
  show ?case
  proof (cases "1 < length cur")
    case False
    then show ?thesis by (simp add: buildTree_loop_unfold)
  next
    case True
    show ?thesis
    proof (cases "combine_level fenv benv st cur level 0 []")
      case (Inl es)
      with combine_level_no_missing_key [OF "1.prems", of fenv benv cur 0 "[]" s] True
      show ?thesis by (simp add: buildTree_loop_unfold)
    next
      case (Inr ns)
      obtain nxt st1 where ns: "ns = (nxt, st1)" by (cases ns)
      from True have "0 < length cur" by linarith
      with combine_level_keyed [OF Inr [unfolded ns]]
      have "level + 1 = 0 \<or> summaryVkAsFields st1 \<noteq> None" by simp
      from "1.IH" [OF True Inr [unfolded ns] refl this] True Inr ns
      show ?thesis by (simp add: buildTree_loop_unfold)
    qed
  qed
qed

lemma called_in_tree_keyed:
  "called_in_tree fenv benv st cur level call \<Longrightarrow>
     level = 0 \<or> summaryVkAsFields st \<noteq> None \<Longrightarrow> 1 \<le> snd call \<Longrightarrow>
     summaryVkAsFields (fst call) \<noteq> None"
proof (induction rule: called_in_tree.induct)
  case (call_this_level currentLevel st level call)
  from called_in_level_keyed [OF call_this_level.hyps(2)] call_this_level.prems
  show ?case by auto
next
  case (call_next_level currentLevel st level nextLevel st' call)
  from call_next_level.hyps(1) have "0 < length currentLevel" by linarith
  with combine_level_keyed [OF call_next_level.hyps(2)]
  have "level + 1 = 0 \<or> summaryVkAsFields st' \<noteq> None" by simp
  from call_next_level.IH [OF this call_next_level.prems(2)] show ?case .
qed

subsection \<open>Leaf proving\<close>

lemma fromBuffer_all_Inl: "fromBuffer_all fenv cs = Inl e \<Longrightarrow> e = PrimitiveThrew"
  by (induction cs arbitrary: e) (auto split: option.splits sum.splits)

lemma prepareNoteCircuitInputs_Inl:
  "prepareNoteCircuitInputs fenv cenv st plaintext elog = Inl e \<Longrightarrow> e \<noteq> MissingSummaryKey"
  by (auto simp: prepareNoteCircuitInputs_def Let_def split: sum.splits option.splits
      dest: fromBuffer_all_Inl)

lemma decryptNote_not_Inl: "decryptNote fenv cenv elog ca sk \<noteq> Inl e"
  by (simp add: decryptNote_def split: sum.splits)



lemma proveLeaves_loop_no_missing_key:
  "proveLeaves_loop fenv cenv benv cfg ns i proofs st \<noteq> Inl (MissingSummaryKey, s)"
proof (induction ns arbitrary: i proofs st)
  case Nil
  show ?case by simp
next
  case (Cons n rest)
  show ?case
    using Cons.IH decryptNote_not_Inl [of fenv cenv n]
    by (auto simp: Let_def split: sum.splits option.splits if_splits prod.splits
        dest: prepareNoteCircuitInputs_Inl)
qed

subsection \<open>The whole run\<close>

lemma buildTree_no_missing_key:
  "buildTree fenv benv st proofs \<noteq> Inl (MissingSummaryKey, s)"
  using buildTree_loop_no_missing_key [of 0 st fenv benv proofs s]
  by (auto simp: buildTree_def split: sum.splits)


lemma getZeroHashes_total: "\<exists>t zc'. getZeroHashes fenv zc d = Inr (t, zc')"
  by (simp add: getZeroHashes_def computeZeroHashes_table)

lemma initialize_Inl:
  "initialize fenv cenv benv cfg st zc = Inl (e, s, z) \<Longrightarrow> e \<noteq> MissingSummaryKey"
  using getZeroHashes_total [of fenv zc 20]
  by (auto simp: initialize_def Let_def split: if_splits option.splits sum.splits)

lemma prove_no_missing_key:
  "prove fenv cenv benv cfg st zc \<noteq> Inl (MissingSummaryKey, s, z)"
proof
  assume p: "prove fenv cenv benv cfg st zc = Inl (MissingSummaryKey, s, z)"
  show False
  proof (cases "initialize fenv cenv benv cfg st zc")
    case (Inl esz)
    with p initialize_Inl [of fenv cenv benv cfg st zc MissingSummaryKey s z] show False
      by (simp add: prove_def)
  next
    case (Inr sz)
    obtain st1 zc1 where sz: "sz = (st1, zc1)" by (cases sz)
    show False
    proof (cases "proveLeaves fenv cenv benv cfg st1")
      case (Inl es)
      obtain e' s' where es: "es = (e', s')" by (cases es)
      from Inl es have "e' \<noteq> MissingSummaryKey \<or> s' \<noteq> s"
        using proveLeaves_loop_no_missing_key [of fenv cenv benv cfg "cfg_notes cfg" 0 "[]" st1 s]
        by (auto simp: proveLeaves_def)
      with p Inr sz Inl es show False by (auto simp: prove_def)
    next
      case leaves: (Inr ls)
      obtain leafs st2 where ls: "ls = (leafs, st2)" by (cases ls)
      show False
      proof (cases "buildTree fenv benv st2 leafs")
        case (Inl es)
        obtain e' s' where es: "es = (e', s')" by (cases es)
        from Inl es buildTree_no_missing_key [of fenv benv st2 leafs s]
        have "e' \<noteq> MissingSummaryKey \<or> s' \<noteq> s" by auto
        with p Inr sz leaves ls Inl es show False by (auto simp: prove_def)
      next
        case built: (Inr rs)
        with p Inr sz leaves ls show False
          by (auto simp: prove_def Let_def split: prod.splits option.splits)
      qed
    qed
  qed
qed


subsection \<open>Evaluation in the small environment\<close>

lemma toy_benv_simps [simp]:
  "noteNoir_init toy_benv = True"
  "summaryNoir_init toy_benv = True"
  "noteNoir_execute toy_benv inp = Some (0, plaintext_len inp, ''leaf'', ''vk'')"
  "noteBackend_generateProof toy_benv w = Some \<lparr>pd_proof = [], pd_publicInputs = []\<rparr>"
  "noteBackend_verifyProof toy_benv p = Some True"
  "noteBackend_generateRecursiveProofArtifacts toy_benv bs n = Some ([''leafvk''], ''0x1'')"
  "summaryNoir_execute toy_benv sinp = Some (0, ''sum'', ''root'', ''vk'')"
  "summaryBackend_generateProof toy_benv w = Some \<lparr>pd_proof = [], pd_publicInputs = []\<rparr>"
  "summaryBackend_verifyProof toy_benv p = Some True"
  "summaryBackend_generateRecursiveProofArtifacts toy_benv bs n = Some ([''sumvk''], ''0x2'')"
  "BigInt_ofString toy_benv s = (if s = ''1'' then Some 1 else None)"
  by (simp_all add: toy_benv_def)

lemma proofBytesToFields_empty: "proofBytesToFields [] = []"
  by (simp add: proofBytesToFields_def proofBytes_loop.simps)

lemma toy_combine_first:
  "combineProofs toy_fenv toy_benv toy_tree left right 0 =
     Inr (toy_node (pa_value left + (case right of Some r \<Rightarrow> pa_value r | None \<Rightarrow> 0)),
          toy_tree_keyed)"
  by (simp add: combineProofs_def precomputeSummaryVkHash_def Let_def toy_tree_def
      toy_tree_keyed_def toy_node_def js_truthy_def js_index_def proofBytesToFields_empty
      split: option.splits)

lemma toy_combine_keyed:
  "level < 4 \<Longrightarrow>
   combineProofs toy_fenv toy_benv toy_tree_keyed left right level =
     Inr (toy_node (pa_value left + (case right of Some r \<Rightarrow> pa_value r | None \<Rightarrow> 0)),
          toy_tree_keyed)"
  by (simp add: combineProofs_def Let_def toy_tree_def toy_tree_keyed_def toy_node_def
      js_truthy_def js_index_def proofBytesToFields_empty split: option.splits)

lemma toy_values [simp]: "pa_value (toy_leaf v) = v" "pa_value (toy_node v) = v"
  by (simp_all add: toy_leaf_def toy_node_def)

lemma toy_level0:
  "combine_level toy_fenv toy_benv toy_tree toy_leaves 0 0 [] =
     Inr ([toy_node 10, toy_node 9, toy_node 10], toy_tree_keyed)"
  by (simp add: combine_level_unfold toy_leaves_def toy_combine_first toy_combine_keyed)




lemma toy_called:
  "called_in_tree toy_fenv toy_benv toy_tree toy_leaves 0 (toy_tree_keyed, 0 + 1)"
proof (rule call_next_level [OF _ toy_level0])
  show "1 < length toy_leaves" by (simp add: toy_leaves_def)
  show "called_in_tree toy_fenv toy_benv toy_tree_keyed [toy_node 10, toy_node 9, toy_node 10]
          (0 + 1) (toy_tree_keyed, 0 + 1)"
  proof (rule call_this_level)
    show "1 < length [toy_node 10, toy_node 9, toy_node 10]" by simp
    show "called_in_level toy_fenv toy_benv toy_tree_keyed [toy_node 10, toy_node 9, toy_node 10]
            (0 + 1) 0 (toy_tree_keyed, 0 + 1)"
      by (rule call_here) simp
  qed
qed






subsection \<open>The value accumulator\<close>



subsection \<open>The summary key\<close>

lemma toy_benv_reuse_simps [simp]:
  "summaryNoir_execute toy_benv_reuse sinp =
     (if summary_vkey_hash sinp = Some ''0x0'' \<and> proof_left sinp = [''second'']
      then None else Some (0, ''sum'', ''root'', ''vk''))"
  "summaryBackend_generateProof toy_benv_reuse w = Some \<lparr>pd_proof = [], pd_publicInputs = []\<rparr>"
  "summaryBackend_verifyProof toy_benv_reuse p = Some True"
  "summaryBackend_generateRecursiveProofArtifacts toy_benv_reuse bs n = Some ([''sumvk''], ''0x2'')"
  by (simp_all add: toy_benv_reuse_def)

lemma toy_reuse_first_run:
  "buildTree toy_fenv toy_benv_reuse toy_tree [toy_leaf 4, toy_leaf 6]
     = Inr (Some (toy_node 10), toy_tree_keyed)"
proof -
  have c: "combineProofs toy_fenv toy_benv_reuse toy_tree (toy_leaf 4) (Some (toy_leaf 6)) 0
             = Inr (toy_node 10, toy_tree_keyed)"
    by (simp add: combineProofs_def precomputeSummaryVkHash_def Let_def toy_tree_def
        toy_tree_keyed_def toy_node_def toy_leaf_def js_truthy_def js_index_def
        proofBytesToFields_empty)
  have l0: "combine_level toy_fenv toy_benv_reuse toy_tree [toy_leaf 4, toy_leaf 6] 0 0 []
             = Inr ([toy_node 10], toy_tree_keyed)"
    by (simp add: combine_level_unfold c)
  have l1: "buildTree_loop toy_fenv toy_benv_reuse toy_tree_keyed [toy_node 10] (0 + 1)
             = Inr ([toy_node 10], toy_tree_keyed)"
    by (rule buildTree_loop_unfold(2)) simp
  have "buildTree_loop toy_fenv toy_benv_reuse toy_tree [toy_leaf 4, toy_leaf 6] 0
          = (case combine_level toy_fenv toy_benv_reuse toy_tree [toy_leaf 4, toy_leaf 6] 0 0 [] of
               Inl es \<Rightarrow> Inl es
             | Inr (nextLevel, st') \<Rightarrow>
                 buildTree_loop toy_fenv toy_benv_reuse st' nextLevel (0 + 1))"
    by (rule buildTree_loop_unfold(1)) simp
  then have "buildTree_loop toy_fenv toy_benv_reuse toy_tree [toy_leaf 4, toy_leaf 6] 0
          = Inr ([toy_node 10], toy_tree_keyed)"
    by (simp only: l0 sum.case prod.case l1)
  then show ?thesis by (simp add: buildTree_def js_index_def)
qed

text \<open>
  Claim C9 fails as worded, in its last part: the first level-0 combination of a run
  does not always trigger the throwaway bootstrap. After a first run the instance holds
  the summary key hash, so in a second run on the same instance the guard
  \<open>!this.summaryVkHash\<close> is false: here the first level-0 combination of the second run
  completes and leaves the state as it was, although the bootstrap, had it been called on
  that sample, would have thrown.
\<close>

theorem reused_instance_combines_without_bootstrap:
  "buildTree toy_fenv toy_benv_reuse toy_tree [toy_leaf 4, toy_leaf 6]
     = Inr (Some (toy_node 10), toy_tree_keyed)
   \<and> js_truthy (summaryVkHash toy_tree_keyed)
   \<and> precomputeSummaryVkHash toy_fenv toy_benv_reuse toy_tree_keyed (toy_leaf_second 4)
        (leafVkAsFields toy_tree_keyed) (leafVkHash toy_tree_keyed)
       = Inl (PrimitiveThrew, toy_tree_keyed)
   \<and> combineProofs toy_fenv toy_benv_reuse toy_tree_keyed (toy_leaf_second 4)
        (Some (toy_leaf_second 6)) 0
       = Inr (toy_node 10, toy_tree_keyed)"
proof (intro conjI)
  show "buildTree toy_fenv toy_benv_reuse toy_tree [toy_leaf 4, toy_leaf 6]
          = Inr (Some (toy_node 10), toy_tree_keyed)"
    by (rule toy_reuse_first_run)
  show "js_truthy (summaryVkHash toy_tree_keyed)"
    by (simp add: toy_tree_keyed_def js_truthy_def)
  show "precomputeSummaryVkHash toy_fenv toy_benv_reuse toy_tree_keyed (toy_leaf_second 4)
          (leafVkAsFields toy_tree_keyed) (leafVkHash toy_tree_keyed)
         = Inl (PrimitiveThrew, toy_tree_keyed)"
    by (simp add: precomputeSummaryVkHash_def Let_def toy_tree_def toy_tree_keyed_def
        toy_leaf_second_def js_index_def)
  show "combineProofs toy_fenv toy_benv_reuse toy_tree_keyed (toy_leaf_second 4)
          (Some (toy_leaf_second 6)) 0
         = Inr (toy_node 10, toy_tree_keyed)"
    by (simp add: combineProofs_def Let_def toy_tree_def toy_tree_keyed_def toy_node_def
        toy_leaf_second_def js_truthy_def js_index_def proofBytesToFields_empty)
qed

text \<open>
  Claim C9, as the code has it. Every call of \<open>combineProofs\<close> that \<open>buildTree\<close> makes with
  a level of 1 or more finds \<open>summaryVkAsFields\<close> set, whatever the state of the instance
  at the start: level 0 holds at least one pair, and every combination that completes
  leaves the key cached. Hence neither \<open>buildTree\<close> nor \<open>prove\<close> fails with
  \<open>MissingSummaryKey\<close>. On an instance without a cached summary key hash, a level-0
  combination that completes has run the throwaway bootstrap with the leaf key, and the
  bootstrap has set the key.
\<close>

theorem missing_summary_key_unreachable:
  "(called_in_tree fenv benv st proofs 0 (s, l) \<and> 1 \<le> l \<longrightarrow> summaryVkAsFields s \<noteq> None)
   \<and> buildTree fenv benv st proofs \<noteq> Inl (MissingSummaryKey, s')
   \<and> prove fenv cenv benv cfg st zc \<noteq> Inl (MissingSummaryKey, s', zc')
   \<and> (\<not> js_truthy (summaryVkHash st)
        \<and> combineProofs fenv benv st left right 0 = Inr (c, st1) \<longrightarrow>
        (\<exists>st0. precomputeSummaryVkHash fenv benv st left (leafVkAsFields st) (leafVkHash st)
                 = Inr ((), st0)
             \<and> summaryVkAsFields st0 \<noteq> None))
   \<and> (combineProofs fenv benv t left' right' level = Inr (c', t') \<longrightarrow>
        summaryVkAsFields t' \<noteq> None)"
proof (intro conjI impI)
  assume "combineProofs fenv benv t left' right' level = Inr (c', t')"
  then show "summaryVkAsFields t' \<noteq> None"
    by (rule combineProofs_Inr(2))
next
  assume "called_in_tree fenv benv st proofs 0 (s, l) \<and> 1 \<le> l"
  then show "summaryVkAsFields s \<noteq> None"
    using called_in_tree_keyed [of fenv benv st proofs 0 "(s, l)"] by simp
next
  show "buildTree fenv benv st proofs \<noteq> Inl (MissingSummaryKey, s')"
    by (rule buildTree_no_missing_key)
next
  show "prove fenv cenv benv cfg st zc \<noteq> Inl (MissingSummaryKey, s', zc')"
    by (rule prove_no_missing_key)
next
  assume "\<not> js_truthy (summaryVkHash st) \<and> combineProofs fenv benv st left right 0 = Inr (c, st1)"
  then show "\<exists>st0. precomputeSummaryVkHash fenv benv st left (leafVkAsFields st) (leafVkHash st)
                 = Inr ((), st0)
             \<and> summaryVkAsFields st0 \<noteq> None"
    using combineProofs_bootstrap [of fenv benv st left right c st1] by simp
qed

theorem missing_summary_key_unreachable_witness:
  "called_in_tree toy_fenv toy_benv toy_tree toy_leaves 0 (toy_tree_keyed, 1)
   \<and> (1::nat) \<le> 1
   \<and> summaryVkAsFields toy_tree_keyed \<noteq> None
   \<and> \<not> js_truthy (summaryVkHash toy_tree)
   \<and> combineProofs toy_fenv toy_benv toy_tree (toy_leaf 4) (Some (toy_leaf 6)) 0
       = Inr (toy_node 10, toy_tree_keyed)
   \<and> precomputeSummaryVkHash toy_fenv toy_benv toy_tree (toy_leaf 4)
       (leafVkAsFields toy_tree) (leafVkHash toy_tree) = Inr ((), toy_tree_keyed)
   \<and> combineProofs toy_fenv toy_benv toy_tree_keyed (toy_leaf 8) None 1
       = Inr (toy_node 8, toy_tree_keyed)"
proof -
  have k: "combineProofs toy_fenv toy_benv toy_tree_keyed (toy_leaf 8) None 1
             = Inr (toy_node 8, toy_tree_keyed)"
    using toy_combine_keyed [of 1 "toy_leaf 8" None] by simp
  have called: "called_in_tree toy_fenv toy_benv toy_tree toy_leaves 0 (toy_tree_keyed, 1)"
    using toy_called by simp
  have fresh: "\<not> js_truthy (summaryVkHash toy_tree)"
    by (simp add: toy_tree_def js_truthy_def)
  have c: "combineProofs toy_fenv toy_benv toy_tree (toy_leaf 4) (Some (toy_leaf 6)) 0
             = Inr (toy_node 10, toy_tree_keyed)"
    using toy_combine_first [of "toy_leaf 4" "Some (toy_leaf 6)"] by simp
  have p: "precomputeSummaryVkHash toy_fenv toy_benv toy_tree (toy_leaf 4)
             (leafVkAsFields toy_tree) (leafVkHash toy_tree) = Inr ((), toy_tree_keyed)"
    by (simp add: precomputeSummaryVkHash_def Let_def toy_tree_def toy_tree_keyed_def js_index_def)
  from missing_summary_key_unreachable
         [where fenv = toy_fenv and benv = toy_benv and st = toy_tree and proofs = toy_leaves
            and s = toy_tree_keyed and l = 1 and s' = toy_tree and cenv = toy_cenv
            and cfg = toy_cfg and zc = initial_zero_cache and zc' = initial_zero_cache
            and left = "toy_leaf 4" and right = "Some (toy_leaf 6)" and c = "toy_node 10"
            and ?st1.0 = toy_tree_keyed and t = toy_tree_keyed and left' = "toy_leaf 8"
            and right' = None and level = 1 and c' = "toy_node 8" and t' = toy_tree_keyed]
    called fresh c k
  have "summaryVkAsFields toy_tree_keyed \<noteq> None" by simp
  with called fresh c p k show ?thesis by simp
qed

end
